theory Spec2Isabelle
  imports Main "HOL-Library.Word"
begin

section \<open>JavaScript values used by the plugin\<close>

text \<open>
  A JavaScript string is a sequence of UTF-16 code units. The banner glyphs of the reporter
  (U+25BC, U+25B2) and the character classes of its regular expression lie outside ASCII,
  so strings are lists of 16-bit words; \<open>str\<close> embeds an ASCII literal.
\<close>

type_synonym jschar = "16 word"
type_synonym jsstring = "jschar list"

definition str :: "string \<Rightarrow> jsstring" where
  "str s = map (\<lambda>c. of_nat (of_char c)) s"

text \<open>
  The values a caller can hand to \<open>libraries\<close>. Only the distinction string / array /
  anything else is observed by \<open>addUnique\<close>; numbers are kept as integers.
\<close>

datatype jsval =
    JUndefined
  | JNull
  | JBool bool
  | JNum int
  | JStr jsstring
  | JArr "jsval list"
  | JObj "(jsstring \<times> jsval) list"

text \<open>
  A vinyl file record as the stages see it: \<open>cwd\<close>, \<open>base\<close>, \<open>path\<close>, the contents
  (\<open>None\<close> is the null contents of \<open>file.isNull()\<close>; a buffer is identified with the text
  it was built from) and the two ad hoc fields \<open>sassSource\<close> and \<open>sassError\<close> that
  \<open>transpile\<close> attaches to a failed result (\<open>None\<close> is an absent field).
\<close>

datatype vinyl = File
  (cwd: jsstring)
  (base: jsstring)
  (path: jsstring)
  (contents: "jsstring option")
  (sassSource: "vinyl option")
  (sassError: "jsstring option")

section \<open>The library list: \<open>addUnique\<close> and \<open>libraries\<close>\<close>

text \<open>
  \<open>libList.indexOf(value) < 0\<close> followed by \<open>libList.push(value)\<close>.
\<close>

definition push_unique :: "jsstring \<Rightarrow> jsstring list \<Rightarrow> jsstring list" where
  "push_unique s libList = (if s \<in> set libList then libList else libList @ [s])"

text \<open>
  \<open>addUnique(value)\<close> on the shared \<open>libList\<close>, which is passed in and returned. An array is
  visited element by element (\<open>value.forEach(addUnique)\<close>), a string is pushed when absent,
  and every other value falls through both branches.
\<close>

fun addUnique :: "jsval \<Rightarrow> jsstring list \<Rightarrow> jsstring list" where
  "addUnique (JArr vs) libList = fold addUnique vs libList"
| "addUnique (JStr s) libList = push_unique s libList"
| "addUnique v libList = libList"

text \<open>
  \<open>libraries(...)\<close>: the arguments object is sliced into an array and given to
  \<open>addUnique\<close>; the returned stage adds \<open>file.base\<close> and pushes the file.
\<close>

definition libraries_args :: "jsval list \<Rightarrow> jsstring list \<Rightarrow> jsstring list" where
  "libraries_args args libList = addUnique (JArr args) libList"

definition libraries_transform ::
    "vinyl \<Rightarrow> jsstring list \<times> vinyl list \<Rightarrow> jsstring list \<times> vinyl list" where
  "libraries_transform f st =
     (case st of (libList, out) \<Rightarrow> (addUnique (JStr (base f)) libList, out @ [f]))"

definition libraries :: "jsval list \<Rightarrow> vinyl list \<Rightarrow> jsstring list \<Rightarrow> jsstring list \<times> vinyl list" where
  "libraries args files libList = fold libraries_transform files (libraries_args args libList, [])"

text \<open>
  The reading of the specification: the strings of a value, arrays flattened at every depth,
  and the distinct elements of a list in the order of their first occurrence.
\<close>

fun strings_of :: "jsval \<Rightarrow> jsstring list" where
  "strings_of (JStr s) = [s]"
| "strings_of (JArr vs) = concat (map strings_of vs)"
| "strings_of v = []"

fun first_seen :: "'a list \<Rightarrow> 'a list" where
  "first_seen [] = []"
| "first_seen (x # xs) = x # first_seen (filter (\<lambda>y. y \<noteq> x) xs)"

section \<open>The reporter: \<open>sassReporter\<close>\<close>

subsection \<open>The regular expression of the reporter\<close>

text \<open>
  The character classes of \<open>/(.*)\:(\d+)\:\s*error:\s*(.*)/\<close>: \<open>\d\<close> is an ASCII digit,
  \<open>\s\<close> is white space or a line terminator, and \<open>.\<close> is any code unit that is not a
  line terminator.
\<close>

definition is_digit :: "jschar \<Rightarrow> bool" where
  "is_digit c = (0x30 \<le> c \<and> c \<le> 0x39)"

definition is_line_terminator :: "jschar \<Rightarrow> bool" where
  "is_line_terminator c = (c = 0x0A \<or> c = 0x0D \<or> c = 0x2028 \<or> c = 0x2029)"

definition is_space :: "jschar \<Rightarrow> bool" where
  "is_space c =
     (c = 0x09 \<or> c = 0x0A \<or> c = 0x0B \<or> c = 0x0C \<or> c = 0x0D \<or> c = 0x20 \<or> c = 0xA0
      \<or> c = 0x1680 \<or> (0x2000 \<le> c \<and> c \<le> 0x200A) \<or> c = 0x2028 \<or> c = 0x2029
      \<or> c = 0x202F \<or> c = 0x205F \<or> c = 0x3000 \<or> c = 0xFEFF)"

definition is_dot :: "jschar \<Rightarrow> bool" where
  "is_dot c = (\<not> is_line_terminator c)"

text \<open>
  A backtracking matcher in continuation style. \<open>star p k s\<close> is the greedy quantifier
  \<open>x*\<close> over the class \<open>p\<close>: it takes one more code unit first and gives the matched text
  and the rest to the continuation \<open>k\<close>; when what follows fails it gives one code unit
  back. \<open>plus\<close> is \<open>x+\<close>, \<open>lit\<close> a literal.
\<close>

fun star :: "(jschar \<Rightarrow> bool) \<Rightarrow> (jsstring \<Rightarrow> jsstring \<Rightarrow> 'a option) \<Rightarrow> jsstring \<Rightarrow> 'a option" where
  "star p k [] = k [] []"
| "star p k (c # r) =
     (if p c
      then (case star p (\<lambda>m. k (c # m)) r of Some x \<Rightarrow> Some x | None \<Rightarrow> k [] (c # r))
      else k [] (c # r))"

definition plus :: "(jschar \<Rightarrow> bool) \<Rightarrow> (jsstring \<Rightarrow> jsstring \<Rightarrow> 'a option) \<Rightarrow> jsstring \<Rightarrow> 'a option" where
  "plus p k s = (case s of [] \<Rightarrow> None | c # r \<Rightarrow> if p c then star p (\<lambda>m. k (c # m)) r else None)"

fun lit :: "jsstring \<Rightarrow> (jsstring \<Rightarrow> 'a option) \<Rightarrow> jsstring \<Rightarrow> 'a option" where
  "lit [] k s = k s"
| "lit (a # l) k [] = None"
| "lit (a # l) k (c # r) = (if a = c then lit l k r else None)"

text \<open>
  One attempt of the whole expression at the head of \<open>s\<close>, with the three captures, and
  \<open>exec\<close>, which tries every start position from the left (the expression has no flags).
\<close>

definition match_here :: "jsstring \<Rightarrow> (jsstring \<times> jsstring \<times> jsstring) option" where
  "match_here s =
     star is_dot (\<lambda>g1.
       lit (str '':'') (
       plus is_digit (\<lambda>g2.
       lit (str '':'') (
       star is_space (\<lambda>_.
       lit (str ''error:'') (
       star is_space (\<lambda>_.
       star is_dot (\<lambda>g3 _. Some (g1, g2, g3))))))))) s"

fun exec :: "jsstring \<Rightarrow> (jsstring \<times> jsstring \<times> jsstring) option" where
  "exec [] = match_here []"
| "exec (c # r) = (case match_here (c # r) of Some g \<Rightarrow> Some g | None \<Rightarrow> exec r)"

subsection \<open>The transform and the flush\<close>

datatype exn = ReferenceError | RangeError | SyntaxError | TypeError

text \<open>
  \<open>(file.isNull()) && (file.sassError) && (file.sassSource)\<close>, read as a condition: the
  contents are null, the error text is a non-empty string, the source is an object.
\<close>

definition isError :: "vinyl \<Rightarrow> bool" where
  "isError f =
     (contents f = None
      \<and> (case sassError f of None \<Rightarrow> False | Some e \<Rightarrow> e \<noteq> [])
      \<and> sassSource f \<noteq> None)"

text \<open>
  The \<open>message\<close> of an error marker. \<open>resolve\<close> is \<open>path.resolve\<close> of the platform, which
  depends on the directory the process runs in. Where the expression does not match, the
  source evaluates the undeclared variable \<open>error\<close>, which raises.
\<close>

definition message :: "(jsstring \<Rightarrow> jsstring) \<Rightarrow> vinyl \<Rightarrow> jsstring \<Rightarrow> exn + jsstring" where
  "message resolve source e =
     (case exec e of
        Some (g1, g2, g3) \<Rightarrow>
          (let isSource = (g1 = str ''source string'');
               absolute = (if isSource then path source else resolve (g1 @ str ''.scss''))
           in Inr (absolute @ str '':'' @ g2 @ str '':0: '' @ g3 @ [0x0A]))
      | None \<Rightarrow> Inl ReferenceError)"

text \<open>
  The transform of the stage on its state: the files pushed so far and the \<open>output\<close> buffer.
\<close>

definition reporter_transform ::
    "(jsstring \<Rightarrow> jsstring) \<Rightarrow> vinyl \<Rightarrow> vinyl list \<times> jsstring list \<Rightarrow> exn + vinyl list \<times> jsstring list" where
  "reporter_transform resolve f st =
     (case st of (pushed, output) \<Rightarrow>
        if isError f
        then (case (sassSource f, sassError f) of
                (Some source, Some e) \<Rightarrow>
                  (case message resolve source e of
                     Inl x \<Rightarrow> Inl x
                   | Inr m \<Rightarrow>
                       Inr (pushed, if m \<noteq> [] \<and> m \<notin> set output then output @ [m] else output))
              | _ \<Rightarrow> Inr (pushed, output))
        else Inr (pushed @ [f], output))"

fun reporter_run ::
    "(jsstring \<Rightarrow> jsstring) \<Rightarrow> vinyl list \<Rightarrow> vinyl list \<times> jsstring list \<Rightarrow> exn + vinyl list \<times> jsstring list" where
  "reporter_run resolve [] st = Inr st"
| "reporter_run resolve (f # fs) st =
     (case reporter_transform resolve f st of
        Inl x \<Rightarrow> Inl x
      | Inr st' \<Rightarrow> reporter_run resolve fs st')"

text \<open>
  \<open>Array.prototype.join\<close> on an array of strings; the holes of \<open>new Array(n)\<close> join as
  empty strings, so \<open>new Array(n)\<close> is \<open>replicate n []\<close> here.
\<close>

fun join :: "jsstring \<Rightarrow> jsstring list \<Rightarrow> jsstring" where
  "join sep [] = []"
| "join sep [x] = x"
| "join sep (x # y # ys) = x @ sep @ join sep (y # ys)"

text \<open>
  The flush at the end of the stream, for a width that is an integer or omitted.
  \<open>Number(bannerWidth) || 0\<close> is 0 for an omitted width; \<open>new Array(width + 1)\<close> raises on a length that is negative or greater than
  4294967295, the greatest length of an array. The result is what is written to standard
  output, \<open>None\<close> when nothing is written.
\<close>

definition reporter_flush :: "int option \<Rightarrow> jsstring list \<Rightarrow> exn + jsstring option" where
  "reporter_flush bannerWidth output =
     (if output = [] then Inr None
      else
        let width = (case bannerWidth of None \<Rightarrow> 0 | Some w \<Rightarrow> w) in
        if width + 1 < 0 \<or> 4294967295 < width + 1 then Inl RangeError
        else
          let hr = replicate (nat (width + 1)) [];
              start = (if width > 0 then join [0x25BC] hr @ [0x0A] else []);
              stop = (if width > 0 then join [0x25B2] hr @ [0x0A] else [])
          in Inr (Some (start @ [0x0A] @ join [0x0A] output @ [0x0A] @ stop)))"

definition sassReporter ::
    "(jsstring \<Rightarrow> jsstring) \<Rightarrow> int option \<Rightarrow> vinyl list \<Rightarrow> exn + vinyl list \<times> jsstring option" where
  "sassReporter resolve bannerWidth files =
     (case reporter_run resolve files ([], []) of
        Inl x \<Rightarrow> Inl x
      | Inr (pushed, output) \<Rightarrow>
          (case reporter_flush bannerWidth output of
             Inl x \<Rightarrow> Inl x
           | Inr written \<Rightarrow> Inr (pushed, written)))"

text \<open>
  The reading of the specification: the formatted message of a record (none when the error
  text does not match) and whether the error text of a record matches.
\<close>

definition marker_message :: "(jsstring \<Rightarrow> jsstring) \<Rightarrow> vinyl \<Rightarrow> jsstring list" where
  "marker_message resolve f =
     (case (sassSource f, sassError f) of
        (Some source, Some e) \<Rightarrow>
          (case message resolve source e of Inr m \<Rightarrow> [m] | Inl x \<Rightarrow> [])
      | _ \<Rightarrow> [])"

definition parses :: "vinyl \<Rightarrow> bool" where
  "parses f = (case sassError f of Some e \<Rightarrow> exec e \<noteq> None | None \<Rightarrow> False)"

text \<open>Sample records: a source file, its error marker, a compiled result, and a marker
  whose error text has no line number.\<close>

definition sample_source :: vinyl where
  "sample_source = File (str ''/w'') (str ''/w/src'') (str ''/w/src/a.scss'') (Some (str ''a{'')) None None"

definition sample_marker :: vinyl where
  "sample_marker = File (str ''/w'') (str ''/w/src'') (str ''/w/src/a.css'') None
     (Some sample_source) (Some (str ''source string:12: error: bad thing''))"

definition sample_css :: vinyl where
  "sample_css = File (str ''/w'') (str ''/w/src'') (str ''/w/src/b.css'') (Some (str ''b{}'')) None None"

definition sample_unparsed :: vinyl where
  "sample_unparsed = File (str ''/w'') (str ''/w/src'') (str ''/w/src/a.css'') None
     (Some sample_source) (Some (str ''file to import not found''))"

definition sample_empty_error :: vinyl where
  "sample_empty_error = File (str ''/w'') (str ''/w/src'') (str ''/w/src/a.css'') None
     (Some sample_source) (Some [])"

section \<open>JSON of the engine\<close>

text \<open>
  The values of \<open>JSON.parse\<close>. A number is kept as the literal that denotes it; its
  double is never computed here.
\<close>

datatype json =
    JsonNull
  | JsonBool bool
  | JsonNumber jsstring
  | JsonString jsstring
  | JsonArray "json list"
  | JsonObject "(jsstring \<times> json) list"

subsection \<open>\<open>JSON.stringify(value, null, '  ')\<close>\<close>

definition hex_digit :: "nat \<Rightarrow> jschar" where
  "hex_digit n = (if n < 10 then 0x30 + of_nat n else 0x61 + of_nat (n - 10))"

text \<open>\<open>Quote\<close>: the quotation mark and the reverse solidus are escaped, the five control
  characters with a short form take it, every other code unit below space is written as
  \<open>\u00XX\<close>, and every other code unit is written as it is (later editions of the
  language also escape a lone surrogate, which is read back as the same code unit).\<close>

definition quote_char :: "jschar \<Rightarrow> jsstring" where
  "quote_char c =
     (if c = 0x22 \<or> c = 0x5C then [0x5C, c]
      else if c = 0x08 then [0x5C, 0x62]
      else if c = 0x0C then [0x5C, 0x66]
      else if c = 0x0A then [0x5C, 0x6E]
      else if c = 0x0D then [0x5C, 0x72]
      else if c = 0x09 then [0x5C, 0x74]
      else if c < 0x20 then [0x5C, 0x75, 0x30, 0x30] @ [hex_digit (unat c div 16), hex_digit (unat c mod 16)]
      else [c])"

definition quote :: "jsstring \<Rightarrow> jsstring" where
  "quote s = [0x22] @ concat (map quote_char s) @ [0x22]"

text \<open>
  \<open>num\<close> writes a number: \<open>Number::toString\<close> of the double that the literal denotes, or
  \<open>null\<close> when that double is infinite. \<open>ind\<close> is the current indentation; the gap is two
  spaces.
\<close>

fun stringify :: "(jsstring \<Rightarrow> jsstring) \<Rightarrow> jsstring \<Rightarrow> json \<Rightarrow> jsstring" where
  "stringify num ind JsonNull = str ''null''"
| "stringify num ind (JsonBool b) = (if b then str ''true'' else str ''false'')"
| "stringify num ind (JsonNumber t) = num t"
| "stringify num ind (JsonString s) = quote s"
| "stringify num ind (JsonArray vs) =
     (if vs = [] then str ''[]''
      else str ''['' @ [0x0A] @ (ind @ str ''  '')
           @ join (str '','' @ [0x0A] @ (ind @ str ''  ''))
                  (map (stringify num (ind @ str ''  '')) vs)
           @ [0x0A] @ ind @ str '']'')"
| "stringify num ind (JsonObject kvs) =
     (if kvs = [] then str ''{}''
      else str ''{'' @ [0x0A] @ (ind @ str ''  '')
           @ join (str '','' @ [0x0A] @ (ind @ str ''  ''))
                  (map (\<lambda>kv. quote (fst kv) @ str '': '' @ stringify num (ind @ str ''  '') (snd kv)) kvs)
           @ [0x0A] @ ind @ str ''}'')"


subsection \<open>\<open>JSON.parse(text)\<close>\<close>

definition is_json_ws :: "jschar \<Rightarrow> bool" where
  "is_json_ws c = (c = 0x20 \<or> c = 0x09 \<or> c = 0x0A \<or> c = 0x0D)"

definition skip_ws :: "jsstring \<Rightarrow> jsstring" where
  "skip_ws s = dropWhile is_json_ws s"

definition hex_value :: "jschar \<Rightarrow> jschar option" where
  "hex_value c =
     (if 0x30 \<le> c \<and> c \<le> 0x39 then Some (c - 0x30)
      else if 0x61 \<le> c \<and> c \<le> 0x66 then Some (c - 0x61 + 10)
      else if 0x41 \<le> c \<and> c \<le> 0x46 then Some (c - 0x41 + 10)
      else None)"

definition hex4 :: "jschar \<Rightarrow> jschar \<Rightarrow> jschar \<Rightarrow> jschar \<Rightarrow> jschar option" where
  "hex4 a b c d =
     (case (hex_value a, hex_value b, hex_value c, hex_value d) of
        (Some x, Some y, Some z, Some w) \<Rightarrow> Some (((x * 16 + y) * 16 + z) * 16 + w)
      | _ \<Rightarrow> None)"

text \<open>The character after a reverse solidus, other than \<open>u\<close>.\<close>

definition unescape :: "jschar \<Rightarrow> jschar option" where
  "unescape e =
     (if e = 0x22 \<or> e = 0x5C \<or> e = 0x2F then Some e
      else if e = 0x62 then Some 0x08
      else if e = 0x66 then Some 0x0C
      else if e = 0x6E then Some 0x0A
      else if e = 0x72 then Some 0x0D
      else if e = 0x74 then Some 0x09
      else None)"

definition cons_fst :: "'a \<Rightarrow> ('a list \<times> 'b) option \<Rightarrow> ('a list \<times> 'b) option" where
  "cons_fst x r = (case r of None \<Rightarrow> None | Some (xs, rest) \<Rightarrow> Some (x # xs, rest))"

text \<open>
  The characters of a string behind its opening quotation mark, up to the closing one: the
  decoded string and the text that follows. A code unit below space is not allowed.
\<close>

fun parse_chars :: "jsstring \<Rightarrow> (jsstring \<times> jsstring) option" where
  "parse_chars [] = None"
| "parse_chars (c # r) =
     (if c = 0x22 then Some ([], r)
      else if c = 0x5C then
        (case r of
           [] \<Rightarrow> None
         | e # r1 \<Rightarrow>
             if e = 0x75 then
               (case r1 of
                  h1 # h2 # h3 # h4 # r2 \<Rightarrow>
                    (case hex4 h1 h2 h3 h4 of
                       None \<Rightarrow> None
                     | Some u \<Rightarrow> cons_fst u (parse_chars r2))
                | _ \<Rightarrow> None)
             else
               (case unescape e of
                  None \<Rightarrow> None
                | Some u \<Rightarrow> cons_fst u (parse_chars r1)))
      else if c < 0x20 then None
      else cons_fst c (parse_chars r))"

text \<open>
  A number literal at the head of the text: an optional minus, \<open>0\<close> or a digit from 1 to
  9 with more digits, an optional fraction, an optional exponent. The result is the literal
  and the text that follows.
\<close>

definition parse_exponent :: "jsstring \<Rightarrow> jsstring \<Rightarrow> (jsstring \<times> jsstring) option" where
  "parse_exponent tok s =
     (case s of
        [] \<Rightarrow> Some (tok, s)
      | c # r \<Rightarrow>
          if c = 0x65 \<or> c = 0x45 then
            (let sign = (case r of [] \<Rightarrow> [] | g # r1 \<Rightarrow> if g = 0x2B \<or> g = 0x2D then [g] else []);
                 r2 = drop (length sign) r;
                 ds = takeWhile is_digit r2
             in if ds = [] then None else Some (tok @ [c] @ sign @ ds, dropWhile is_digit r2))
          else Some (tok, s))"

definition parse_fraction :: "jsstring \<Rightarrow> jsstring \<Rightarrow> (jsstring \<times> jsstring) option" where
  "parse_fraction tok s =
     (case s of
        [] \<Rightarrow> parse_exponent tok s
      | c # r \<Rightarrow>
          if c = 0x2E then
            (let ds = takeWhile is_digit r
             in if ds = [] then None else parse_exponent (tok @ [c] @ ds) (dropWhile is_digit r))
          else parse_exponent tok s)"

definition parse_number :: "jsstring \<Rightarrow> (jsstring \<times> jsstring) option" where
  "parse_number s =
     (let sign = (case s of [] \<Rightarrow> [] | c # r \<Rightarrow> if c = 0x2D then [c] else []);
          s1 = drop (length sign) s
      in case s1 of
           [] \<Rightarrow> None
         | d # r \<Rightarrow>
             if d = 0x30 then parse_fraction (sign @ [d]) r
             else if is_digit d
             then parse_fraction (sign @ [d] @ takeWhile is_digit r) (dropWhile is_digit r)
             else None)"

text \<open>
  The own properties of an object in the order the engine enumerates them: the keys that
  are array indices first, by ascending value, then the other keys in the order of their
  creation. \<open>put_property\<close> is the definition of one property on such an object; a key
  already there keeps its place and takes the new value, a new array index goes behind the
  indices that are not greater (two different array indices never have the same value).
\<close>

definition index_value :: "jsstring \<Rightarrow> int" where
  "index_value k = foldl (\<lambda>n c. 10 * n + uint (c - 0x30)) 0 k"

definition is_array_index :: "jsstring \<Rightarrow> bool" where
  "is_array_index k =
     (k \<noteq> [] \<and> list_all is_digit k \<and> (hd k = 0x30 \<longrightarrow> length k = 1)
      \<and> index_value k < 4294967295)"

fun insert_index :: "jsstring \<Rightarrow> json \<Rightarrow> (jsstring \<times> json) list \<Rightarrow> (jsstring \<times> json) list" where
  "insert_index k v [] = [(k, v)]"
| "insert_index k v ((k', v') # kvs) =
     (if is_array_index k' \<and> index_value k' \<le> index_value k
      then (k', v') # insert_index k v kvs
      else (k, v) # (k', v') # kvs)"

definition put_property :: "jsstring \<times> json \<Rightarrow> (jsstring \<times> json) list \<Rightarrow> (jsstring \<times> json) list" where
  "put_property kv kvs =
     (if fst kv \<in> fst ` set kvs
      then map (\<lambda>kv'. if fst kv' = fst kv then kv else kv') kvs
      else if is_array_index (fst kv) then insert_index (fst kv) (snd kv) kvs
      else kvs @ [kv])"

definition object_of :: "(jsstring \<times> json) list \<Rightarrow> json" where
  "object_of members = JsonObject (fold put_property members [])"

text \<open>
  The value at the head of a text and the text behind it. The first argument bounds the
  number of nested calls; \<open>JSON_parse\<close> gives enough for any text of its length.
  \<open>parse_elements\<close> reads the elements of an array behind its opening bracket, up to the
  closing one, \<open>parse_members\<close> the members of an object.
\<close>

fun parse_value :: "nat \<Rightarrow> jsstring \<Rightarrow> (json \<times> jsstring) option"
  and parse_elements :: "nat \<Rightarrow> jsstring \<Rightarrow> (json list \<times> jsstring) option"
  and parse_members :: "nat \<Rightarrow> jsstring \<Rightarrow> ((jsstring \<times> json) list \<times> jsstring) option" where
  "parse_value 0 s = None"
| "parse_value (Suc n) [] = None"
| "parse_value (Suc n) (c # r) =
     (if c = 0x7B then
        (case skip_ws r of
           [] \<Rightarrow> None
         | d # r1 \<Rightarrow>
             if d = 0x7D then Some (JsonObject [], r1)
             else (case parse_members n (d # r1) of
                     None \<Rightarrow> None
                   | Some (members, rest) \<Rightarrow> Some (object_of members, rest)))
      else if c = 0x5B then
        (case skip_ws r of
           [] \<Rightarrow> None
         | d # r1 \<Rightarrow>
             if d = 0x5D then Some (JsonArray [], r1)
             else (case parse_elements n (d # r1) of
                     None \<Rightarrow> None
                   | Some (vs, rest) \<Rightarrow> Some (JsonArray vs, rest)))
      else if c = 0x22 then
        (case parse_chars r of None \<Rightarrow> None | Some (t, rest) \<Rightarrow> Some (JsonString t, rest))
      else if c = 0x2D \<or> is_digit c then
        (case parse_number (c # r) of None \<Rightarrow> None | Some (t, rest) \<Rightarrow> Some (JsonNumber t, rest))
      else if take 4 (c # r) = str ''true'' then Some (JsonBool True, drop 4 (c # r))
      else if take 5 (c # r) = str ''false'' then Some (JsonBool False, drop 5 (c # r))
      else if take 4 (c # r) = str ''null'' then Some (JsonNull, drop 4 (c # r))
      else None)"
| "parse_elements 0 s = None"
| "parse_elements (Suc n) s =
     (case parse_value n s of
        None \<Rightarrow> None
      | Some (v, rest) \<Rightarrow>
          (case skip_ws rest of
             [] \<Rightarrow> None
           | c # r \<Rightarrow>
               if c = 0x2C then cons_fst v (parse_elements n (skip_ws r))
               else if c = 0x5D then Some ([v], r)
               else None))"
| "parse_members 0 s = None"
| "parse_members (Suc n) s =
     (case s of
        [] \<Rightarrow> None
      | q # r \<Rightarrow>
          if q \<noteq> 0x22 then None
          else
            (case parse_chars r of
               None \<Rightarrow> None
             | Some (k, rest) \<Rightarrow>
                 (case skip_ws rest of
                    [] \<Rightarrow> None
                  | c # r1 \<Rightarrow>
                      if c \<noteq> 0x3A then None
                      else
                        (case parse_value n (skip_ws r1) of
                           None \<Rightarrow> None
                         | Some (v, rest2) \<Rightarrow>
                             (case skip_ws rest2 of
                                [] \<Rightarrow> None
                              | d # r2 \<Rightarrow>
                                  if d = 0x2C then cons_fst (k, v) (parse_members n (skip_ws r2))
                                  else if d = 0x7D then Some ([(k, v)], r2)
                                  else None)))))"

definition JSON_parse :: "jsstring \<Rightarrow> json option" where
  "JSON_parse text =
     (case parse_value (2 * length text + 2) (skip_ws text) of
        None \<Rightarrow> None
      | Some (v, rest) \<Rightarrow> if skip_ws rest = [] then Some v else None)"

definition JSON_stringify :: "(jsstring \<Rightarrow> jsstring) \<Rightarrow> json \<Rightarrow> jsstring" where
  "JSON_stringify num v = stringify num [] v"

subsection \<open>The values that \<open>JSON.parse\<close> returns\<close>

text \<open>
  A number literal is a text that \<open>parse_number\<close> takes whole; \<open>ends_number\<close> holds of a
  text that cannot continue one.
\<close>

definition number_token :: "jsstring \<Rightarrow> bool" where
  "number_token t = (parse_number t = Some (t, []))"

definition ends_number :: "jsstring \<Rightarrow> bool" where
  "ends_number r = (case r of [] \<Rightarrow> True
     | c # r' \<Rightarrow> \<not> is_digit c \<and> c \<noteq> 0x2E \<and> c \<noteq> 0x65 \<and> c \<noteq> 0x45)"

text \<open>
  The order of enumeration on keys: an array index comes before every key that is not one,
  and array indices are in ascending order.
\<close>

definition key_before :: "jsstring \<Rightarrow> jsstring \<Rightarrow> bool" where
  "key_before a b =
     (if is_array_index a then (\<not> is_array_index b \<or> index_value a \<le> index_value b)
      else \<not> is_array_index b)"

definition enumeration_order :: "(jsstring \<times> json) list \<Rightarrow> bool" where
  "enumeration_order kvs = (distinct (map fst kvs) \<and> sorted_wrt key_before (map fst kvs))"

text \<open>
  What is assumed of the engine where it writes a number: for the number that a literal
  denotes it writes \<open>null\<close> (an infinite double) or a literal, and that literal it writes
  back unchanged (\<open>Number::toString\<close> of a double reads back as the same double).
\<close>

definition number_text_ok :: "(jsstring \<Rightarrow> jsstring) \<Rightarrow> bool" where
  "number_text_ok num =
     (\<forall>t. number_token t \<longrightarrow>
        num t = str ''null'' \<or> (number_token (num t) \<and> num (num t) = num t))"

text \<open>
  The values of the parser: their numbers are literals and their objects are in
  enumeration order, at every depth. \<open>normal\<close> is the value with each number as it is
  written, and \<open>need\<close> bounds the nested calls that reading the written value takes.
\<close>

fun well_formed :: "json \<Rightarrow> bool" where
  "well_formed (JsonNumber t) = number_token t"
| "well_formed (JsonArray vs) = (\<forall>v \<in> set vs. well_formed v)"
| "well_formed (JsonObject kvs) =
     (enumeration_order kvs \<and> (\<forall>kv \<in> set kvs. well_formed (snd kv)))"
| "well_formed v = True"

fun normal :: "(jsstring \<Rightarrow> jsstring) \<Rightarrow> json \<Rightarrow> json" where
  "normal num (JsonNumber t) = (if num t = str ''null'' then JsonNull else JsonNumber (num t))"
| "normal num (JsonArray vs) = JsonArray (map (normal num) vs)"
| "normal num (JsonObject kvs) = JsonObject (map (\<lambda>kv. (fst kv, normal num (snd kv))) kvs)"
| "normal num v = v"

fun need :: "json \<Rightarrow> nat" where
  "need (JsonArray vs) = Suc (sum_list (map (\<lambda>v. Suc (need v)) vs))"
| "need (JsonObject kvs) = Suc (sum_list (map (\<lambda>kv. Suc (need (snd kv))) kvs))"
| "need v = Suc 0"

text \<open>The first code unit of a written value.\<close>

definition value_start :: "jschar \<Rightarrow> bool" where
  "value_start c =
     (c = 0x7B \<or> c = 0x5B \<or> c = 0x22 \<or> c = 0x2D \<or> is_digit c
      \<or> c = 0x74 \<or> c = 0x66 \<or> c = 0x6E)"

section \<open>The compiler stage: \<open>transpile\<close>\<close>

text \<open>
  The options object given to \<open>sass.render\<close>, without the two callbacks and the \<open>stats\<close>
  object: the file, the include paths, the output style and the source map, which is a file
  name or \<open>false\<close> (\<open>None\<close>). The compiler answers through exactly one of its callbacks:
  \<open>success(css, map)\<close> or \<open>error(error)\<close>.
\<close>

record render_options =
  render_file :: jsstring
  includePaths :: "jsstring list"
  outputStyle :: jsstring
  sourceMap :: "jsstring option"

datatype render_result = Success jsstring jsstring | Failure jsstring

text \<open>
  What the stage uses and this repository does not define: the compiler of \<open>node-sass\<close>;
  \<open>path.basename(p[, ext])\<close> and \<open>path.extname\<close> of the platform; the expression that
  \<open>minimatch.makeRe(file.cwd)\<close> yields, after its anchors are removed and its separators
  generalised, as a matcher at the head of a text (\<open>Some n\<close>: it matches the first \<open>n\<close> code
  units); \<open>slash\<close> of \<open>gulp-slash\<close> on a string; and the text that the engine writes
  for the number a literal denotes (see \<open>stringify\<close>).
\<close>

record env =
  sass_render :: "render_options \<Rightarrow> render_result"
  path_basename :: "jsstring \<Rightarrow> jsstring option \<Rightarrow> jsstring"
  path_extname :: "jsstring \<Rightarrow> jsstring"
  makeRe :: "jsstring \<Rightarrow> jsstring \<Rightarrow> nat option"
  slash :: "jsstring \<Rightarrow> jsstring"
  Number_toString :: "jsstring \<Rightarrow> jsstring"

text \<open>
  What a transform does, in order: a call of the compiler, a push to the output stream, the
  call of \<open>done\<close>, or an exception that leaves the transform.
\<close>

datatype event = Render render_options | Push vinyl | Done | Raise exn

fun pushes :: "event list \<Rightarrow> vinyl list" where
  "pushes [] = []"
| "pushes (Push f # t) = f # pushes t"
| "pushes (e # t) = pushes t"

fun renders :: "event list \<Rightarrow> render_options list" where
  "renders [] = []"
| "renders (Render ro # t) = ro # renders t"
| "renders (e # t) = renders t"

fun raises :: "event list \<Rightarrow> bool" where
  "raises [] = False"
| "raises (Raise x # t) = True"
| "raises (e # t) = raises t"

text \<open>
  \<open>s.replace(pat, '')\<close> with a string pattern: the first occurrence of \<open>pat\<close> is removed.
\<close>

fun replace_first :: "jsstring \<Rightarrow> jsstring \<Rightarrow> jsstring" where
  "replace_first pat [] = []"
| "replace_first pat (c # r) =
     (if take (length pat) (c # r) = pat then drop (length pat) (c # r)
      else c # replace_first pat r)"

text \<open>
  \<open>occurs pat s\<close>: the string \<open>pat\<close> occurs in \<open>s\<close> at some position.
\<close>

fun occurs :: "jsstring \<Rightarrow> jsstring \<Rightarrow> bool" where
  "occurs pat [] = (pat = [])"
| "occurs pat (c # r) = (take (length pat) (c # r) = pat \<or> occurs pat r)"

definition sourcePath :: "env \<Rightarrow> vinyl \<Rightarrow> jsstring" where
  "sourcePath env f = replace_first (path_basename env (path f) None) (path f)"

definition sourceName :: "env \<Rightarrow> vinyl \<Rightarrow> jsstring" where
  "sourceName env f = path_basename env (path f) (Some (path_extname env (path f)))"

definition mapName :: "env \<Rightarrow> vinyl \<Rightarrow> jsstring" where
  "mapName env f = sourceName env f @ str ''.css.map''"

text \<open>
  \<open>pushResult(ext, contents)\<close>: \<open>contents\<close> is a string, which becomes the contents of
  the new file, or an object, whose fields are copied onto the new file with null contents.
  The only object given is that of \<open>errorHandler\<close>, with \<open>sassSource\<close> and \<open>sassError\<close>.
\<close>

datatype push_contents = Text jsstring | Fields vinyl jsstring

definition pushResult :: "env \<Rightarrow> vinyl \<Rightarrow> jsstring \<Rightarrow> push_contents \<Rightarrow> vinyl" where
  "pushResult env f ext c =
     (let p = sourcePath env f @ sourceName env f @ ext in
      case c of
        Text t \<Rightarrow> File (cwd f) (base f) p (Some t) None None
      | Fields source e \<Rightarrow> File (cwd f) (base f) p None (Some source) (Some e))"

text \<open>
  \<open>map.replace(new RegExp(source, 'g'), '')\<close>, where \<open>source\<close> is the expression for the
  working directory, then \<open>|\<close>, then \<open>\.\.\/\<close>. At each position the first alternative is
  tried before the second; a match is removed and the scan goes on behind it; an empty
  match removes nothing and the scan moves one code unit on.
\<close>

definition strip_match :: "(jsstring \<Rightarrow> nat option) \<Rightarrow> jsstring \<Rightarrow> nat option" where
  "strip_match m s =
     (case m s of
        Some n \<Rightarrow> Some n
      | None \<Rightarrow> if take 3 s = str ''../'' then Some 3 else None)"

function strip :: "(jsstring \<Rightarrow> nat option) \<Rightarrow> jsstring \<Rightarrow> jsstring" where
  "strip m [] = []"
| "strip m (c # r) =
     (case strip_match m (c # r) of
        Some (Suc n) \<Rightarrow> strip m (drop n r)
      | _ \<Rightarrow> c # strip m r)"
  by pat_completeness auto
termination
  by (relation "measure (\<lambda>(m, s). length s)") auto

text \<open>
  \<open>delete v.key\<close>: it raises on null, removes the property of an object and leaves
  every other value as it is.
\<close>

definition delete_property :: "jsstring \<Rightarrow> json \<Rightarrow> exn + json" where
  "delete_property k v =
     (case v of
        JsonNull \<Rightarrow> Inl TypeError
      | JsonObject kvs \<Rightarrow> Inr (JsonObject (filter (\<lambda>kv. fst kv \<noteq> k) kvs))
      | _ \<Rightarrow> Inr v)"

definition parsable :: "env \<Rightarrow> vinyl \<Rightarrow> jsstring \<Rightarrow> jsstring" where
  "parsable env f smap = slash env (strip (makeRe env (cwd f)) smap)"

definition successHandler :: "env \<Rightarrow> vinyl \<Rightarrow> jsstring \<Rightarrow> jsstring \<Rightarrow> event list" where
  "successHandler env f css smap =
     (case JSON_parse (parsable env f smap) of
        None \<Rightarrow> [Raise SyntaxError]
      | Some parsed \<Rightarrow>
          (case delete_property (str ''file'') parsed of
             Inl x \<Rightarrow> [Raise x]
           | Inr parsed1 \<Rightarrow>
               (case delete_property (str ''sourcesContent'') parsed1 of
                  Inl x \<Rightarrow> [Raise x]
                | Inr parsed2 \<Rightarrow>
                    [Push (pushResult env f (str ''.css'') (Text css)),
                     Push (pushResult env f (str ''.css.map'')
                             (Text (JSON_stringify (Number_toString env) parsed2))),
                     Done])))"

definition errorHandler :: "env \<Rightarrow> vinyl \<Rightarrow> jsstring \<Rightarrow> event list" where
  "errorHandler env f e = [Push (pushResult env f (str ''.css'') (Fields f e)), Done]"

text \<open>
  The options of one \<open>render(map, error, success)\<close>; \<open>outputStyle || 'compressed'\<close> takes
  the default for an omitted or empty style.
\<close>

definition render_call :: "jsstring option \<Rightarrow> jsstring list \<Rightarrow> vinyl \<Rightarrow> jsstring option \<Rightarrow> render_options" where
  "render_call style libList f smap =
     \<lparr> render_file = path f,
       includePaths = libList,
       outputStyle = (case style of None \<Rightarrow> str ''compressed''
                      | Some st \<Rightarrow> if st = [] then str ''compressed'' else st),
       sourceMap = smap \<rparr>"

text \<open>
  The transform of \<open>transpile\<close> for one file: render without a source map; from its
  success callback render again with the source map; the handlers push and call \<open>done\<close>.
\<close>

definition transpile_transform :: "env \<Rightarrow> jsstring option \<Rightarrow> jsstring list \<Rightarrow> vinyl \<Rightarrow> event list" where
  "transpile_transform env style libList f =
     (let first = render_call style libList f None;
          second = render_call style libList f (Some (mapName env f))
      in Render first #
         (case sass_render env first of
            Failure e \<Rightarrow> errorHandler env f e
          | Success css0 smap0 \<Rightarrow>
              Render second #
              (case sass_render env second of
                 Failure e \<Rightarrow> errorHandler env f e
               | Success css smap \<Rightarrow> successHandler env f css smap)))"

text \<open>The stage over a stream: an exception that leaves a transform ends the run.\<close>

fun transpile :: "env \<Rightarrow> jsstring option \<Rightarrow> jsstring list \<Rightarrow> vinyl list \<Rightarrow> event list" where
  "transpile env style libList [] = []"
| "transpile env style libList (f # fs) =
     (let t = transpile_transform env style libList f in
      if raises t then t else t @ transpile env style libList fs)"

subsection \<open>A sample environment\<close>

text \<open>
  A sample environment for a POSIX platform: the last segment of a path and its extension,
  the expression for a working directory without glob characters, the replacement of
  reverse solidi by solidi, and number literals that are written back as they are.
\<close>

definition sample_basename :: "jsstring \<Rightarrow> jsstring option \<Rightarrow> jsstring" where
  "sample_basename p ext =
     (let b = rev (takeWhile (\<lambda>c. c \<noteq> 0x2F) (rev p)) in
      case ext of
        None \<Rightarrow> b
      | Some e \<Rightarrow>
          if e \<noteq> [] \<and> drop (length b - length e) b = e then take (length b - length e) b else b)"

definition sample_extname :: "jsstring \<Rightarrow> jsstring" where
  "sample_extname p =
     (let b = rev (takeWhile (\<lambda>c. c \<noteq> 0x2F) (rev p)) in
      if 0x2E \<in> set (tl b) then 0x2E # rev (takeWhile (\<lambda>c. c \<noteq> 0x2E) (rev b)) else [])"

definition sample_makeRe :: "jsstring \<Rightarrow> jsstring \<Rightarrow> nat option" where
  "sample_makeRe d s =
     (if length d \<le> length s
         \<and> list_all2 (\<lambda>a b. if a = 0x2F then b = 0x2F \<or> b = 0x5C else a = b) d (take (length d) s)
      then Some (length d) else None)"

definition sample_slash :: "jsstring \<Rightarrow> jsstring" where
  "sample_slash s = map (\<lambda>c. if c = 0x5C then 0x2F else c) s"

definition sample_env :: "(render_options \<Rightarrow> render_result) \<Rightarrow> env" where
  "sample_env compiler =
     \<lparr> sass_render = compiler,
       path_basename = sample_basename,
       path_extname = sample_extname,
       makeRe = sample_makeRe,
       slash = sample_slash,
       Number_toString = (\<lambda>t. t) \<rparr>"

text \<open>Three compilers: one that fails at once, one that fails when a source map is asked
  for, and one that succeeds with a source map whose source has a directory named \<open>...\<close>.\<close>

definition fails_first :: "render_options \<Rightarrow> render_result" where
  "fails_first ro = Failure (str ''source string:12: error: bad thing'')"

definition fails_second :: "render_options \<Rightarrow> render_result" where
  "fails_second ro =
     (case sourceMap ro of
        None \<Rightarrow> Success (str ''a{}'') []
      | Some m \<Rightarrow> Failure (str ''source string:12: error: bad thing''))"

definition sample_map :: jsstring where
  \<open>sample_map = str ''{"version":3,"file":"a.css","sources":["..././a.scss"],"names":[],"mappings":""}''\<close>

definition succeeds :: "render_options \<Rightarrow> render_result" where
  "succeeds ro = Success (str ''a{}'') sample_map"

text \<open>The source map of that compiler after the replacement, the value that is written,
  and the text of the \<open>.css.map\<close> record.\<close>

definition sample_stripped :: jsstring where
  \<open>sample_stripped = str ''{"version":3,"file":"a.css","sources":["../a.scss"],"names":[],"mappings":""}''\<close>

definition sample_emitted :: jsstring where
  \<open>sample_emitted =
     str ''{'' @ [0x0A]
     @ str ''  "version": 3,'' @ [0x0A]
     @ str ''  "sources": ['' @ [0x0A]
     @ str ''    "../a.scss"'' @ [0x0A]
     @ str ''  ],'' @ [0x0A]
     @ str ''  "names": [],'' @ [0x0A]
     @ str ''  "mappings": ""'' @ [0x0A]
     @ str ''}''\<close>

definition sample_parsed :: json where
  "sample_parsed = JsonObject
     [(str ''version'', JsonNumber (str ''3'')),
      (str ''sources'', JsonArray [JsonString (str ''../a.scss'')]),
      (str ''names'', JsonArray []),
      (str ''mappings'', JsonString [])]"

text \<open>A source file in a directory whose name contains the name of the file.\<close>

definition sample_nested :: vinyl where
  "sample_nested = File (str ''/w'') (str ''/w'') (str ''/w/a.scss.d/a.scss'') (Some (str ''a{'')) None None"

fun is_Render :: "event \<Rightarrow> bool" where
  "is_Render (Render ro) = True"
| "is_Render e = False"

subsection \<open>Properties of the library list\<close>

lemma set_first_seen: "set (first_seen xs) = set xs"
  by (induction xs rule: first_seen.induct) auto

lemma distinct_first_seen: "distinct (first_seen xs)"
  by (induction xs rule: first_seen.induct) (auto simp: set_first_seen)

lemma fold_push_unique:
  "fold push_unique xs libList = libList @ first_seen (filter (\<lambda>s. s \<notin> set libList) xs)"
proof (induction xs arbitrary: libList)
  case Nil
  show ?case by simp
next
  case (Cons x xs)
  show ?case
  proof (cases "x \<in> set libList")
    case True
    then show ?thesis using Cons.IH [of libList] by (simp add: push_unique_def)
  next
    case False
    have "filter (\<lambda>s. s \<notin> set (libList @ [x])) xs
            = filter (\<lambda>y. y \<noteq> x) (filter (\<lambda>s. s \<notin> set libList) xs)"
      by (induction xs) auto
    then show ?thesis using False Cons.IH [of "libList @ [x]"] by (simp add: push_unique_def)
  qed
qed

lemma addUnique_fold: "addUnique v libList = fold push_unique (strings_of v) libList"
proof (induction v libList rule: addUnique.induct)
  case (1 vs libList)
  then show ?case
  proof (induction vs arbitrary: libList)
    case Nil
    show ?case by simp
  next
    case (Cons a vs)
    have a: "addUnique a libList = fold push_unique (strings_of a) libList"
      using Cons.prems [of a libList] by simp
    have "addUnique (JArr vs) (addUnique a libList)
            = fold push_unique (strings_of (JArr vs)) (addUnique a libList)"
      using Cons.IH [of "addUnique a libList"] Cons.prems by simp
    then show ?case using a by simp
  qed
qed simp_all

lemma fold_libraries_transform:
  "fold libraries_transform files (libList, out)
     = (fold push_unique (map base files) libList, out @ files)"
  by (induction files arbitrary: libList out) (simp_all add: libraries_transform_def)

lemma libraries_eq:
  "libraries args files libList
     = (libList @ first_seen (filter (\<lambda>s. s \<notin> set libList)
                    (concat (map strings_of args) @ map base files)), files)"
proof -
  have "fold push_unique (map base files) (fold push_unique (concat (map strings_of args)) libList)
          = fold push_unique (concat (map strings_of args) @ map base files) libList"
    by simp
  then show ?thesis
    unfolding libraries_def libraries_args_def fold_libraries_transform addUnique_fold
    by (simp add: fold_push_unique del: fold_append)
qed

text \<open>
  Claim C2. A \<open>libraries\<close> stage created with explicit arguments \<open>args\<close> and fed the
  records \<open>files\<close> leaves in the library list, after what it held before, every path string
  not yet held exactly once and in the order of first appearance, the explicit strings before
  the base directories of the stream; the records themselves are pushed unchanged and in
  order. On the empty list of a fresh instance the list is exactly the first-seen
  enumeration, it has no duplicates and it holds the same strings as the input.
\<close>

theorem libraries_first_seen_order:
  "libraries args files libList
     = (libList @ first_seen (filter (\<lambda>s. s \<notin> set libList)
                    (concat (map strings_of args) @ map base files)), files)
   \<and> libraries args files []
     = (first_seen (concat (map strings_of args) @ map base files), files)
   \<and> distinct (fst (libraries args files []))
   \<and> set (fst (libraries args files []))
     = set (concat (map strings_of args)) \<union> base ` set files"
  by (simp add: libraries_eq distinct_first_seen set_first_seen)

text \<open>
  Claim C10. An argument of \<open>libraries\<close> that is neither a string nor an array (undefined,
  null, a boolean, a number, a plain object) leaves the library list as it was, and no branch
  of \<open>addUnique\<close> raises; an array is flattened at every nesting depth and exactly its
  strings are added, each at most once.
\<close>

theorem addUnique_ignores_non_strings:
  "addUnique JUndefined libList = libList
   \<and> addUnique JNull libList = libList
   \<and> addUnique (JBool b) libList = libList
   \<and> addUnique (JNum n) libList = libList
   \<and> addUnique (JObj kvs) libList = libList
   \<and> addUnique (JArr vs) libList
     = libList @ first_seen (filter (\<lambda>s. s \<notin> set libList) (concat (map strings_of vs)))
   \<and> libraries_args args libList
     = libList @ first_seen (filter (\<lambda>s. s \<notin> set libList) (concat (map strings_of args)))"
  by (simp add: libraries_args_def addUnique_fold fold_push_unique del: addUnique.simps(1))

subsection \<open>Properties of the reporter\<close>

lemma message_cases:
  "message resolve source e =
     (case exec e of
        None \<Rightarrow> Inl ReferenceError
      | Some (g1, g2, g3) \<Rightarrow>
          Inr ((if g1 = str ''source string'' then path source else resolve (g1 @ str ''.scss''))
               @ str '':'' @ g2 @ str '':0: '' @ g3 @ [0x0A]))"
  by (simp add: message_def Let_def split: option.splits)

lemma message_nonempty: "message resolve source e = Inr m \<Longrightarrow> m \<noteq> []"
  by (auto simp: message_cases split: option.splits if_splits)

lemma transform_not_error:
  "\<not> isError f \<Longrightarrow> reporter_transform resolve f (pushed, out) = Inr (pushed @ [f], out)"
  by (simp add: reporter_transform_def)

lemma transform_marker:
  assumes "isError f" and "parses f"
  shows "\<exists>m. marker_message resolve f = [m]
           \<and> reporter_transform resolve f (pushed, out) = Inr (pushed, push_unique m out)"
proof -
  from assms(1) obtain source e where se: "sassSource f = Some source" "sassError f = Some e"
    by (auto simp: isError_def split: option.splits)
  with assms(2) obtain g where g: "exec e = Some g"
    by (auto simp: parses_def)
  then obtain m where m: "message resolve source e = Inr m"
    by (cases g) (simp add: message_cases)
  then have "m \<noteq> []" by (rule message_nonempty)
  with m se assms(1) show ?thesis
    by (simp add: marker_message_def reporter_transform_def push_unique_def)
qed

lemma transform_unparsed:
  assumes "isError f" and "\<not> parses f"
  shows "reporter_transform resolve f st = Inl ReferenceError"
proof -
  from assms(1) obtain source e where se: "sassSource f = Some source" "sassError f = Some e"
    by (auto simp: isError_def split: option.splits)
  with assms(2) have "exec e = None" by (cases "exec e") (simp_all add: parses_def)
  with se assms(1) show ?thesis
    by (cases st) (simp add: reporter_transform_def message_cases)
qed

lemma reporter_run_eq:
  "\<forall>f \<in> set files. isError f \<longrightarrow> parses f \<Longrightarrow>
   reporter_run resolve files (pushed, out)
     = Inr (pushed @ filter (\<lambda>f. \<not> isError f) files,
            fold push_unique (concat (map (marker_message resolve) (filter isError files))) out)"
proof (induction files arbitrary: pushed out)
  case Nil
  show ?case by simp
next
  case (Cons f fs)
  show ?case
  proof (cases "isError f")
    case True
    with Cons.prems have "parses f" by simp
    with True obtain m where m: "marker_message resolve f = [m]"
      "reporter_transform resolve f (pushed, out) = Inr (pushed, push_unique m out)"
      using transform_marker by blast
    with True Cons.IH [of pushed "push_unique m out"] Cons.prems show ?thesis by simp
  next
    case False
    with Cons.IH [of "pushed @ [f]" out] Cons.prems show ?thesis
      by (simp add: transform_not_error)
  qed
qed

lemma join_holes: "join [g] (replicate (Suc n) []) = replicate n g"
  by (induction n) simp_all

lemma join_lines: "out \<noteq> [] \<Longrightarrow> join sep out @ sep = concat (map (\<lambda>m. m @ sep) out)"
  by (induction sep out rule: join.induct) simp_all

lemma reporter_flush_eq:
  assumes "out \<noteq> []" and "0 \<le> w" and "w < 4294967295"
  shows "reporter_flush (Some w) out
     = Inr (Some ((if 0 < w then replicate (nat w) 0x25BC @ [0x0A] else [])
                   @ [0x0A] @ concat (map (\<lambda>m. m @ [0x0A]) out)
                   @ (if 0 < w then replicate (nat w) 0x25B2 @ [0x0A] else [])))"
proof -
  from assms(2) have n: "nat (w + 1) = Suc (nat w)" by simp
  from assms(1) have j: "join [0x0A] out @ [0x0A] = concat (map (\<lambda>m. m @ [0x0A]) out)"
    by (rule join_lines)
  from assms show ?thesis
    by (simp add: reporter_flush_def Let_def n join_holes j del: replicate_Suc)
qed

lemma exec_sample: "exec (str ''source string:12: error: bad thing'')
    = Some (str ''source string'', str ''12'', str ''bad thing'')"
  by code_simp

lemma exec_sample_unparsed: "exec (str ''file to import not found'') = None"
  by code_simp

lemma isError_samples:
  "isError sample_marker" "\<not> isError sample_css" "isError sample_unparsed"
  "\<not> isError sample_empty_error"
  by (simp_all add: isError_def sample_marker_def sample_css_def sample_unparsed_def
      sample_empty_error_def str_def)

lemma parses_sample_marker: "parses sample_marker"
  by (simp add: parses_def sample_marker_def exec_sample)

lemma marker_message_sample:
  "marker_message resolve sample_marker = [str ''/w/src/a.scss:12:0: bad thing'' @ [0x0A]]"
  by (simp add: marker_message_def message_cases sample_marker_def sample_source_def exec_sample)
    (simp add: str_def)

text \<open>
  Claim C5, as the source has it. A record is an error marker exactly when its contents are
  null, its error text is a non-empty string and its source field is present. A record that
  is not a marker is pushed unchanged and the buffer is left alone; a marker is never
  pushed, whether its step returns or raises. Over a stream whose markers all match the
  expression, the stage pushes exactly the records that are not markers, in order.
\<close>

theorem reporter_classifies_and_filters:
  "(isError f \<longleftrightarrow>
      contents f = None \<and> (\<exists>e. sassError f = Some e \<and> e \<noteq> []) \<and> sassSource f \<noteq> None)
   \<and> (\<not> isError f \<longrightarrow>
        reporter_transform resolve f (pushed, out) = Inr (pushed @ [f], out))
   \<and> (isError f \<longrightarrow>
        (case reporter_transform resolve f (pushed, out) of
           Inl x \<Rightarrow> True
         | Inr st \<Rightarrow> fst st = pushed))
   \<and> ((\<forall>f \<in> set files. isError f \<longrightarrow> parses f) \<longrightarrow>
        (\<exists>buf. reporter_run resolve files ([], []) = Inr (filter (\<lambda>f. \<not> isError f) files, buf)))"
proof (intro conjI impI)
  show "isError f \<longleftrightarrow>
      contents f = None \<and> (\<exists>e. sassError f = Some e \<and> e \<noteq> []) \<and> sassSource f \<noteq> None"
    by (cases "sassError f") (simp_all add: isError_def)
next
  assume "\<not> isError f"
  then show "reporter_transform resolve f (pushed, out) = Inr (pushed @ [f], out)"
    by (rule transform_not_error)
next
  assume e: "isError f"
  show "case reporter_transform resolve f (pushed, out) of Inl x \<Rightarrow> True | Inr st \<Rightarrow> fst st = pushed"
  proof (cases "parses f")
    case True
    with e transform_marker [of f resolve pushed out] show ?thesis by auto
  next
    case False
    with e show ?thesis by (simp add: transform_unparsed)
  qed
next
  assume "\<forall>f \<in> set files. isError f \<longrightarrow> parses f"
  then show "\<exists>buf. reporter_run resolve files ([], []) = Inr (filter (\<lambda>f. \<not> isError f) files, buf)"
    by (simp add: reporter_run_eq)
qed

theorem reporter_classifies_and_filters_witness:
  "isError sample_marker \<and> \<not> isError sample_css
   \<and> reporter_transform (\<lambda>p. p) sample_css ([], []) = Inr ([sample_css], [])
   \<and> fst (projr (reporter_transform (\<lambda>p. p) sample_marker ([sample_css], []))) = [sample_css]
   \<and> (\<exists>buf. reporter_run (\<lambda>p. p) [sample_marker, sample_css] ([], []) = Inr ([sample_css], buf))"
proof -
  have p: "\<forall>f \<in> set [sample_marker, sample_css]. isError f \<longrightarrow> parses f"
    by (simp add: isError_samples parses_sample_marker)
  have m: "reporter_transform (\<lambda>p. p) sample_marker ([sample_css], [])
             = Inr ([sample_css], [str ''/w/src/a.scss:12:0: bad thing'' @ [0x0A]])"
    using transform_marker [OF isError_samples(1) parses_sample_marker, of "\<lambda>p. p" "[sample_css]" "[]"]
    by (simp add: marker_message_sample push_unique_def)
  show ?thesis
    using reporter_classifies_and_filters [of sample_css "\<lambda>p. p" "[]" "[]" "[sample_marker, sample_css]"]
      reporter_classifies_and_filters [of sample_marker "\<lambda>p. p" "[sample_css]" "[]" "[]"] p m
    by (simp add: isError_samples)
qed

text \<open>
  The claim as written fails on a record with null contents that carries both fields but an
  empty error text: the stage does not take it for a marker and pushes it.
\<close>

theorem reporter_forwards_empty_error_text:
  "contents sample_empty_error = None
   \<and> sassError sample_empty_error \<noteq> None
   \<and> sassSource sample_empty_error \<noteq> None
   \<and> \<not> isError sample_empty_error
   \<and> reporter_transform (\<lambda>p. p) sample_empty_error ([], []) = Inr ([sample_empty_error], [])"
  by (simp add: isError_samples transform_not_error) (simp add: sample_empty_error_def)

text \<open>
  Claim C6, as the source has it. For an error marker whose error text matches the
  expression with captures \<open>g1\<close>, \<open>g2\<close>, \<open>g3\<close>, the step appends to the buffer, unless
  the buffer holds it already, the text \<open><path>:<g2>:0: <g3>\<close> followed by a line feed,
  where the path is that of the attached source when \<open>g1\<close> is \<open>source string\<close> and
  \<open>resolve (g1 + '.scss')\<close> otherwise. Over a stream whose markers all match, the buffer at
  the end holds the messages of the markers once each, in the order of first occurrence.
\<close>

theorem reporter_buffers_unique_messages:
  "(isError f \<and> sassSource f = Some source \<and> sassError f = Some e
      \<and> exec e = Some (g1, g2, g3) \<longrightarrow>
        reporter_transform resolve f (pushed, out)
          = Inr (pushed,
                 push_unique
                   ((if g1 = str ''source string'' then path source else resolve (g1 @ str ''.scss''))
                    @ str '':'' @ g2 @ str '':0: '' @ g3 @ [0x0A]) out))
   \<and> ((\<forall>f \<in> set files. isError f \<longrightarrow> parses f) \<longrightarrow>
        reporter_run resolve files ([], [])
          = Inr (filter (\<lambda>f. \<not> isError f) files,
                 first_seen (concat (map (marker_message resolve) (filter isError files)))))"
proof (intro conjI impI)
  assume a: "isError f \<and> sassSource f = Some source \<and> sassError f = Some e
      \<and> exec e = Some (g1, g2, g3)"
  then have "parses f" by (simp add: parses_def)
  with a obtain m where m: "marker_message resolve f = [m]"
    "reporter_transform resolve f (pushed, out) = Inr (pushed, push_unique m out)"
    using transform_marker by blast
  from a m(1) have "m = (if g1 = str ''source string'' then path source else resolve (g1 @ str ''.scss''))
                    @ str '':'' @ g2 @ str '':0: '' @ g3 @ [0x0A]"
    by (simp add: marker_message_def message_cases)
  with m(2) show "reporter_transform resolve f (pushed, out)
          = Inr (pushed,
                 push_unique
                   ((if g1 = str ''source string'' then path source else resolve (g1 @ str ''.scss''))
                    @ str '':'' @ g2 @ str '':0: '' @ g3 @ [0x0A]) out)"
    by simp
next
  assume "\<forall>f \<in> set files. isError f \<longrightarrow> parses f"
  then show "reporter_run resolve files ([], [])
          = Inr (filter (\<lambda>f. \<not> isError f) files,
                 first_seen (concat (map (marker_message resolve) (filter isError files))))"
    by (simp add: reporter_run_eq fold_push_unique)
qed

theorem reporter_buffers_unique_messages_witness:
  "reporter_transform (\<lambda>p. p) sample_marker ([], [])
     = Inr ([], [str ''/w/src/a.scss:12:0: bad thing'' @ [0x0A]])
   \<and> reporter_run (\<lambda>p. p) [sample_marker, sample_css, sample_marker] ([], [])
     = Inr ([sample_css], [str ''/w/src/a.scss:12:0: bad thing'' @ [0x0A]])"
proof -
  have p: "\<forall>f \<in> set [sample_marker, sample_css, sample_marker]. isError f \<longrightarrow> parses f"
    by (simp add: isError_samples parses_sample_marker)
  have h: "isError sample_marker \<and> sassSource sample_marker = Some sample_source
      \<and> sassError sample_marker = Some (str ''source string:12: error: bad thing'')
      \<and> exec (str ''source string:12: error: bad thing'')
          = Some (str ''source string'', str ''12'', str ''bad thing'')"
    by (simp add: isError_samples exec_sample) (simp add: sample_marker_def)
  have s: "path sample_source @ str '':'' @ str ''12'' @ str '':0: '' @ str ''bad thing'' @ [0x0A]
             = str ''/w/src/a.scss:12:0: bad thing'' @ [0x0A]"
    by (simp add: sample_source_def str_def)
  note t = reporter_buffers_unique_messages [of sample_marker sample_source
        "str ''source string:12: error: bad thing''" "str ''source string''" "str ''12''"
        "str ''bad thing''" "\<lambda>p. p" "[]" "[]" "[sample_marker, sample_css, sample_marker]"]
  have a: "reporter_transform (\<lambda>p. p) sample_marker ([], [])
     = Inr ([], [str ''/w/src/a.scss:12:0: bad thing'' @ [0x0A]])"
    using t [THEN conjunct1, THEN mp, OF h] s by (simp add: push_unique_def)
  have b: "reporter_run (\<lambda>p. p) [sample_marker, sample_css, sample_marker] ([], [])
     = Inr ([sample_css], [str ''/w/src/a.scss:12:0: bad thing'' @ [0x0A]])"
    using t [THEN conjunct2, THEN mp, OF p]
    by (simp add: isError_samples marker_message_sample del: reporter_run.simps)
  from a b show ?thesis by simp
qed

text \<open>
  The claim as written fails on the line feed: for the marker of \<open>/w/src/a.scss\<close> with
  error text \<open>source string:12: error: bad thing\<close> the buffered entry is not
  \<open>/w/src/a.scss:12:0: bad thing\<close> but that text followed by a line feed.
\<close>

theorem reporter_message_ends_with_newline:
  "exec (str ''source string:12: error: bad thing'')
     = Some (str ''source string'', str ''12'', str ''bad thing'')
   \<and> reporter_transform (\<lambda>p. p) sample_marker ([], [])
       \<noteq> Inr ([], [str ''/w/src/a.scss:12:0: bad thing''])
   \<and> reporter_transform (\<lambda>p. p) sample_marker ([], [])
       = Inr ([], [str ''/w/src/a.scss:12:0: bad thing'' @ [0x0A]])"
proof -
  have "reporter_transform (\<lambda>p. p) sample_marker ([], [])
       = Inr ([], [str ''/w/src/a.scss:12:0: bad thing'' @ [0x0A]])"
    using transform_marker [OF isError_samples(1) parses_sample_marker, of "\<lambda>p. p" "[]" "[]"]
    by (simp add: marker_message_sample push_unique_def)
  then show ?thesis by (simp add: exec_sample)
qed

text \<open>
  Claim C7. At the end of the stream nothing is written when the buffer is empty, and so
  when no record of the stream was an error marker. Otherwise one text is written: for a
  width \<open>w > 0\<close> a line of \<open>w\<close> glyphs U+25BC, then an empty line, then every buffered
  message followed by a line feed, then for \<open>w > 0\<close> a line of \<open>w\<close> glyphs U+25B2; for a
  width 0 or an omitted width the two banner lines are absent. The width is below
  4294967295: from there on \<open>new Array(width + 1)\<close> raises and nothing is written. Over a
  stream whose markers all match the expression, the stage writes what the flush writes for
  the messages of the markers, once each in the order of first occurrence.
\<close>

theorem reporter_flush_block:
  "reporter_flush bannerWidth [] = Inr None
   \<and> ((\<forall>f \<in> set files. \<not> isError f) \<longrightarrow>
        sassReporter resolve bannerWidth files = Inr (files, None))
   \<and> (out \<noteq> [] \<longrightarrow>
        reporter_flush None out
          = Inr (Some ([0x0A] @ concat (map (\<lambda>m. m @ [0x0A]) out))))
   \<and> (out \<noteq> [] \<and> 0 \<le> w \<and> w < 4294967295 \<longrightarrow>
        reporter_flush (Some w) out
          = Inr (Some ((if 0 < w then replicate (nat w) 0x25BC @ [0x0A] else [])
                       @ [0x0A] @ concat (map (\<lambda>m. m @ [0x0A]) out)
                       @ (if 0 < w then replicate (nat w) 0x25B2 @ [0x0A] else []))))
   \<and> (out \<noteq> [] \<and> 4294967295 \<le> w \<longrightarrow> reporter_flush (Some w) out = Inl RangeError)
   \<and> ((\<forall>f \<in> set files. isError f \<longrightarrow> parses f) \<longrightarrow>
        sassReporter resolve bannerWidth files
          = (case reporter_flush bannerWidth
                    (first_seen (concat (map (marker_message resolve) (filter isError files)))) of
               Inl x \<Rightarrow> Inl x
             | Inr written \<Rightarrow> Inr (filter (\<lambda>f. \<not> isError f) files, written)))"
proof (intro conjI impI)
  show "reporter_flush bannerWidth [] = Inr None"
    by (simp add: reporter_flush_def)
next
  assume a: "\<forall>f \<in> set files. \<not> isError f"
  then have "filter (\<lambda>f. \<not> isError f) files = files" "filter isError files = []"
    by (simp_all add: filter_empty_conv)
  with a show "sassReporter resolve bannerWidth files = Inr (files, None)"
    by (simp add: sassReporter_def reporter_run_eq reporter_flush_def)
next
  assume a: "out \<noteq> []"
  then have "join [0x0A] out @ [0x0A] = concat (map (\<lambda>m. m @ [0x0A]) out)"
    by (rule join_lines)
  with a show "reporter_flush None out
          = Inr (Some ([0x0A] @ concat (map (\<lambda>m. m @ [0x0A]) out)))"
    by (simp add: reporter_flush_def)
next
  assume "out \<noteq> [] \<and> 0 \<le> w \<and> w < 4294967295"
  then have "out \<noteq> []" "0 \<le> w" "w < 4294967295" by simp_all
  then show "reporter_flush (Some w) out
          = Inr (Some ((if 0 < w then replicate (nat w) 0x25BC @ [0x0A] else [])
                       @ [0x0A] @ concat (map (\<lambda>m. m @ [0x0A]) out)
                       @ (if 0 < w then replicate (nat w) 0x25B2 @ [0x0A] else [])))"
    by (rule reporter_flush_eq)
next
  assume "out \<noteq> [] \<and> 4294967295 \<le> w"
  then show "reporter_flush (Some w) out = Inl RangeError"
    by (simp add: reporter_flush_def)
next
  assume "\<forall>f \<in> set files. isError f \<longrightarrow> parses f"
  then show "sassReporter resolve bannerWidth files
          = (case reporter_flush bannerWidth
                    (first_seen (concat (map (marker_message resolve) (filter isError files)))) of
               Inl x \<Rightarrow> Inl x
             | Inr written \<Rightarrow> Inr (filter (\<lambda>f. \<not> isError f) files, written))"
    by (simp add: sassReporter_def reporter_run_eq fold_push_unique)
qed

theorem reporter_flush_block_witness:
  "sassReporter (\<lambda>p. p) (Some 5) [sample_css] = Inr ([sample_css], None)
   \<and> reporter_flush None [str ''m'' @ [0x0A]] = Inr (Some ([0x0A] @ str ''m'' @ [0x0A, 0x0A]))
   \<and> reporter_flush (Some 0) [str ''m'' @ [0x0A]] = Inr (Some ([0x0A] @ str ''m'' @ [0x0A, 0x0A]))
   \<and> reporter_flush (Some 5) [str ''m'' @ [0x0A], str ''n'' @ [0x0A]]
       = Inr (Some ([0x25BC, 0x25BC, 0x25BC, 0x25BC, 0x25BC, 0x0A, 0x0A]
                    @ str ''m'' @ [0x0A, 0x0A] @ str ''n'' @ [0x0A, 0x0A]
                    @ [0x25B2, 0x25B2, 0x25B2, 0x25B2, 0x25B2, 0x0A]))
   \<and> reporter_flush (Some 4294967295) [str ''m'' @ [0x0A]] = Inl RangeError
   \<and> sassReporter (\<lambda>p. p) (Some 5) [sample_marker, sample_css, sample_marker]
       = Inr ([sample_css],
              Some ([0x25BC, 0x25BC, 0x25BC, 0x25BC, 0x25BC, 0x0A, 0x0A]
                    @ str ''/w/src/a.scss:12:0: bad thing'' @ [0x0A, 0x0A]
                    @ [0x25B2, 0x25B2, 0x25B2, 0x25B2, 0x25B2, 0x0A]))"
proof -
  have n: "replicate 5 (c :: jschar) = [c, c, c, c, c]" for c
    by (simp add: numeral_eq_Suc)
  have p: "\<forall>f \<in> set [sample_marker, sample_css, sample_marker]. isError f \<longrightarrow> parses f"
    by (simp add: isError_samples parses_sample_marker)
  note t1 = reporter_flush_block [of "Some 5" "[sample_css]" "\<lambda>p. p" "[str ''m'' @ [0x0A]]" 0]
  note t2 = reporter_flush_block [of "Some 5" "[]" "\<lambda>p. p"
      "[str ''m'' @ [0x0A], str ''n'' @ [0x0A]]" 5]
  note t3 = reporter_flush_block [of "Some 5" "[sample_marker, sample_css, sample_marker]"
      "\<lambda>p. p" "[str ''/w/src/a.scss:12:0: bad thing'' @ [0x0A]]" 5]
  note t4 = reporter_flush_block [of "Some 5" "[]" "\<lambda>p. p" "[str ''m'' @ [0x0A]]" 4294967295]
  have a: "sassReporter (\<lambda>p. p) (Some 5) [sample_css] = Inr ([sample_css], None)"
    "reporter_flush None [str ''m'' @ [0x0A]] = Inr (Some ([0x0A] @ str ''m'' @ [0x0A, 0x0A]))"
    "reporter_flush (Some 0) [str ''m'' @ [0x0A]] = Inr (Some ([0x0A] @ str ''m'' @ [0x0A, 0x0A]))"
    using t1 by (simp_all add: isError_samples)
  have b: "reporter_flush (Some 5) [str ''m'' @ [0x0A], str ''n'' @ [0x0A]]
       = Inr (Some ([0x25BC, 0x25BC, 0x25BC, 0x25BC, 0x25BC, 0x0A, 0x0A]
                    @ str ''m'' @ [0x0A, 0x0A] @ str ''n'' @ [0x0A, 0x0A]
                    @ [0x25B2, 0x25B2, 0x25B2, 0x25B2, 0x25B2, 0x0A]))"
    using t2 by (simp add: n)
  have c: "reporter_flush (Some 4294967295) [str ''m'' @ [0x0A]] = Inl RangeError"
    using t4 by simp
  have f: "reporter_flush (Some 5) [str ''/w/src/a.scss:12:0: bad thing'' @ [0x0A]]
       = Inr (Some ([0x25BC, 0x25BC, 0x25BC, 0x25BC, 0x25BC, 0x0A, 0x0A]
                    @ str ''/w/src/a.scss:12:0: bad thing'' @ [0x0A, 0x0A]
                    @ [0x25B2, 0x25B2, 0x25B2, 0x25B2, 0x25B2, 0x0A]))"
    using t3 by (simp add: n)
  have m: "first_seen (concat (map (marker_message (\<lambda>p. p))
              (filter isError [sample_marker, sample_css, sample_marker])))
            = [str ''/w/src/a.scss:12:0: bad thing'' @ [0x0A]]"
    by (simp add: isError_samples marker_message_sample)
  have k: "filter (\<lambda>f. \<not> isError f) [sample_marker, sample_css, sample_marker] = [sample_css]"
    by (simp add: isError_samples)
  have d: "sassReporter (\<lambda>p. p) (Some 5) [sample_marker, sample_css, sample_marker]
       = Inr ([sample_css],
              Some ([0x25BC, 0x25BC, 0x25BC, 0x25BC, 0x25BC, 0x0A, 0x0A]
                    @ str ''/w/src/a.scss:12:0: bad thing'' @ [0x0A, 0x0A]
                    @ [0x25B2, 0x25B2, 0x25B2, 0x25B2, 0x25B2, 0x0A]))"
    using t3 [THEN conjunct2, THEN conjunct2, THEN conjunct2, THEN conjunct2, THEN conjunct2,
        THEN mp, OF p]
    by (simp only: m f k sum.case)
  from a b c d show ?thesis by simp
qed

text \<open>
  Claim C9 at a failing input. The error text \<open>file to import not found\<close> does not match
  the expression; the branch that should log it evaluates the undeclared variable
  \<open>error\<close>, so the step raises a reference error and nothing is logged.
\<close>

theorem reporter_unparsed_raises:
  "exec (str ''file to import not found'') = None
   \<and> isError sample_unparsed
   \<and> reporter_transform (\<lambda>p. p) sample_unparsed ([], []) = Inl ReferenceError
   \<and> sassReporter (\<lambda>p. p) None [sample_unparsed, sample_css] = Inl ReferenceError"
proof -
  have "\<not> parses sample_unparsed"
    by (simp add: parses_def sample_unparsed_def exec_sample_unparsed)
  then have "reporter_transform (\<lambda>p. p) sample_unparsed ([], []) = Inl ReferenceError"
    using isError_samples(3) by (simp add: transform_unparsed)
  then show ?thesis
    by (simp add: exec_sample_unparsed isError_samples sassReporter_def)
qed

subsection \<open>Properties of JSON: number literals\<close>

lemma ends_number_digits:
  "ends_number r \<Longrightarrow> takeWhile is_digit r = []" "ends_number r \<Longrightarrow> dropWhile is_digit r = r"
  by (cases r; simp add: ends_number_def)+

lemma takeWhile_digits_ends:
  "ends_number r \<Longrightarrow> takeWhile is_digit (takeWhile is_digit s @ r) = takeWhile is_digit s"
  "ends_number r \<Longrightarrow> dropWhile is_digit (takeWhile is_digit s @ r) = r"
proof -
  have a: "\<And>x. x \<in> set (takeWhile is_digit s) \<Longrightarrow> is_digit x"
    by (rule set_takeWhileD [THEN conjunct2])
  show "ends_number r \<Longrightarrow> takeWhile is_digit (takeWhile is_digit s @ r) = takeWhile is_digit s"
    using takeWhile_append2 [of "takeWhile is_digit s" is_digit r, OF a]
    by (simp add: ends_number_digits)
  show "ends_number r \<Longrightarrow> dropWhile is_digit (takeWhile is_digit s @ r) = r"
    using dropWhile_append2 [of "takeWhile is_digit s" is_digit r, OF a]
    by (simp add: ends_number_digits)
qed

lemma parse_exponent_extend:
  assumes "parse_exponent tok s = Some (t, r)" and "ends_number r'"
  shows "\<exists>u. t = tok @ u \<and> s = u @ r \<and> parse_exponent tok' (u @ r') = Some (tok' @ u, r')"
proof (cases s)
  case Nil
  with assms show ?thesis
    by (cases r') (auto simp: parse_exponent_def ends_number_def)
next
  case (Cons c q)
  show ?thesis
  proof (cases "c = 0x65 \<or> c = 0x45")
    case False
    with assms Cons show ?thesis
      by (cases r') (auto simp: parse_exponent_def ends_number_def)
  next
    case True
    define sign where "sign = (case q of [] \<Rightarrow> [] | g # r1 \<Rightarrow> if g = 0x2B \<or> g = 0x2D then [g] else [])"
    define ds where "ds = takeWhile is_digit (drop (length sign) q)"
    have q: "q = sign @ drop (length sign) q"
      by (cases q) (auto simp: sign_def)
    from assms(1) Cons True have ne: "ds \<noteq> []" and t: "t = tok @ [c] @ sign @ ds"
      and r: "r = dropWhile is_digit (drop (length sign) q)"
      by (auto simp: parse_exponent_def Let_def sign_def ds_def split: if_splits)
    have s: "s = ([c] @ sign @ ds) @ r"
      using Cons q r ds_def by (metis append_Cons append_Nil append_assoc takeWhile_dropWhile_id)
    have sg: "(case sign @ ds @ r' of [] \<Rightarrow> [] | g # r1 \<Rightarrow> if g = 0x2B \<or> g = 0x2D then [g] else []) = sign"
    proof (cases q)
      case Nil
      then show ?thesis using ne by (simp add: ds_def sign_def)
    next
      case (Cons g r1)
      show ?thesis
      proof (cases "g = 0x2B \<or> g = 0x2D")
        case True
        then show ?thesis using Cons by (auto simp: sign_def)
      next
        case False
        then have e: "sign = []" using Cons by (simp add: sign_def)
        with ne obtain d ds' where d: "ds = d # ds'" by (cases ds) auto
        then have "d \<in> set (takeWhile is_digit q)" using e by (simp add: ds_def)
        then have "is_digit d" by (rule set_takeWhileD [THEN conjunct2])
        then have "d \<noteq> 0x2B \<and> d \<noteq> 0x2D" by (auto simp: is_digit_def)
        then show ?thesis using e d by simp
      qed
    qed
    have "parse_exponent tok' (([c] @ sign @ ds) @ r') = Some (tok' @ [c] @ sign @ ds, r')"
      using True ne assms(2) sg
      by (simp add: parse_exponent_def Let_def ds_def takeWhile_digits_ends)
    with t s show ?thesis by blast
  qed
qed

lemma not_digit_head:
  assumes "ends_number r'" and "s = u @ r" and "s = [] \<or> \<not> is_digit (hd s)"
  shows "takeWhile is_digit (u @ r') = []" and "dropWhile is_digit (u @ r') = u @ r'"
proof -
  have "u @ r' = [] \<or> \<not> is_digit (hd (u @ r'))"
  proof (cases u)
    case Nil
    with assms(1) show ?thesis by (cases r') (simp_all add: ends_number_def)
  next
    case (Cons a u')
    with assms(2,3) show ?thesis by auto
  qed
  then show "takeWhile is_digit (u @ r') = []" and "dropWhile is_digit (u @ r') = u @ r'"
    by (simp_all add: takeWhile_eq_Nil_iff dropWhile_eq_self_iff)
qed

lemma parse_fraction_extend:
  assumes "parse_fraction tok s = Some (t, r)" and "ends_number r'"
  shows "\<exists>u. t = tok @ u \<and> s = u @ r \<and> parse_fraction tok' (u @ r') = Some (tok' @ u, r')"
proof (cases "s \<noteq> [] \<and> hd s = 0x2E")
  case False
  then have e: "parse_fraction tok s = parse_exponent tok s"
    by (cases s) (simp_all add: parse_fraction_def)
  with assms obtain u where u: "t = tok @ u" "s = u @ r"
    "parse_exponent tok' (u @ r') = Some (tok' @ u, r')"
    using parse_exponent_extend [of tok s t r r' tok'] by auto
  have "u @ r' = [] \<or> hd (u @ r') \<noteq> 0x2E"
  proof (cases u)
    case Nil
    with assms(2) show ?thesis by (cases r') (simp_all add: ends_number_def)
  next
    case (Cons a u')
    with u(2) False show ?thesis by auto
  qed
  then have "parse_fraction tok' (u @ r') = parse_exponent tok' (u @ r')"
    by (cases "u @ r'") (simp_all add: parse_fraction_def)
  with u show ?thesis by auto
next
  case True
  then obtain q where s: "s = 0x2E # q" by (cases s) auto
  define ds where "ds = takeWhile is_digit q"
  define s2 where "s2 = dropWhile is_digit q"
  from assms(1) s have ne: "ds \<noteq> []"
    and p: "parse_exponent (tok @ [0x2E] @ ds) s2 = Some (t, r)"
    by (auto simp: parse_fraction_def Let_def ds_def s2_def split: if_splits)
  from p assms(2) obtain u where u: "t = (tok @ [0x2E] @ ds) @ u" "s2 = u @ r"
    "parse_exponent (tok' @ [0x2E] @ ds) (u @ r') = Some ((tok' @ [0x2E] @ ds) @ u, r')"
    using parse_exponent_extend [of "tok @ [0x2E] @ ds" s2 t r r' "tok' @ [0x2E] @ ds"] by auto
  have h: "s2 = [] \<or> \<not> is_digit (hd s2)"
    using hd_dropWhile [of is_digit q] by (auto simp: s2_def)
  have d: "\<And>x. x \<in> set ds \<Longrightarrow> is_digit x"
    unfolding ds_def by (rule set_takeWhileD [THEN conjunct2])
  have tk: "takeWhile is_digit (ds @ u @ r') = ds"
    using takeWhile_append2 [of ds is_digit "u @ r'", OF d] not_digit_head(1) [OF assms(2) u(2) h]
    by simp
  have dr: "dropWhile is_digit (ds @ u @ r') = u @ r'"
    using dropWhile_append2 [of ds is_digit "u @ r'", OF d] not_digit_head(2) [OF assms(2) u(2) h]
    by simp
  have "parse_fraction tok' (([0x2E] @ ds @ u) @ r') = Some (tok' @ [0x2E] @ ds @ u, r')"
    using ne u(3) by (simp add: parse_fraction_def Let_def tk dr)
  moreover have "q = ds @ s2" by (simp add: ds_def s2_def)
  then have "s = ([0x2E] @ ds @ u) @ r"
    using s u(2) by simp
  ultimately show ?thesis using u(1) by (intro exI [of _ "[0x2E] @ ds @ u"]) simp
qed

lemma parse_number_extend:
  assumes "parse_number s = Some (t, r)" and "ends_number r'"
  shows "s = t @ r \<and> parse_number (t @ r') = Some (t, r')"
proof -
  define sign where "sign = (case s of [] \<Rightarrow> [] | c # q \<Rightarrow> if c = 0x2D then [c] else [])"
  define s1 where "s1 = drop (length sign) s"
  have s: "s = sign @ s1" by (cases s) (auto simp: sign_def s1_def)
  from assms(1) obtain d q where s1: "s1 = d # q"
    by (cases s1) (auto simp: parse_number_def Let_def sign_def s1_def)
  have nd: "d \<noteq> 0x2D" if "is_digit d" using that by (auto simp: is_digit_def)
  have sg: "(case sign @ d # x of [] \<Rightarrow> [] | c # q \<Rightarrow> if c = 0x2D then [c] else []) = sign"
    if "is_digit d" for x
  proof (cases sign)
    case Nil
    with nd [OF that] show ?thesis by simp
  next
    case (Cons a l)
    then have "sign = [0x2D]" by (cases s) (auto simp: sign_def split: if_splits)
    then show ?thesis by simp
  qed
  show ?thesis
  proof (cases "d = 0x30")
    case True
    then have dg: "is_digit d" by (simp add: is_digit_def)
    from assms(1) True s1 have "parse_fraction (sign @ [d]) q = Some (t, r)"
      by (simp add: parse_number_def Let_def sign_def [symmetric] s1_def [symmetric])
    with assms(2) obtain u where u: "t = (sign @ [d]) @ u" "q = u @ r"
      "parse_fraction (sign @ [d]) (u @ r') = Some ((sign @ [d]) @ u, r')"
      using parse_fraction_extend [of "sign @ [d]" q t r r' "sign @ [d]"] by auto
    have "parse_number ((sign @ d # u) @ r') = Some ((sign @ [d]) @ u, r')"
      using True u(3) sg [OF dg, of "u @ r'"] by (simp add: parse_number_def Let_def)
    with u(1,2) s s1 show ?thesis by simp
  next
    case False
    from assms(1) False s1 have dg: "is_digit d"
      by (auto simp: parse_number_def Let_def sign_def [symmetric] s1_def [symmetric]
          split: if_splits)
    define ds where "ds = takeWhile is_digit q"
    define s2 where "s2 = dropWhile is_digit q"
    have q: "q = ds @ s2" by (simp add: ds_def s2_def)
    from assms(1) False s1 dg have "parse_fraction (sign @ [d] @ ds) s2 = Some (t, r)"
      by (simp add: parse_number_def Let_def sign_def [symmetric] s1_def [symmetric] ds_def s2_def)
    with assms(2) obtain u where u: "t = (sign @ [d] @ ds) @ u" "s2 = u @ r"
      "parse_fraction (sign @ [d] @ ds) (u @ r') = Some ((sign @ [d] @ ds) @ u, r')"
      using parse_fraction_extend [of "sign @ [d] @ ds" s2 t r r' "sign @ [d] @ ds"] by auto
    have h: "s2 = [] \<or> \<not> is_digit (hd s2)"
      using hd_dropWhile [of is_digit q] by (auto simp: s2_def)
    have d: "\<And>x. x \<in> set ds \<Longrightarrow> is_digit x"
      unfolding ds_def by (rule set_takeWhileD [THEN conjunct2])
    have tk: "takeWhile is_digit (ds @ u @ r') = ds"
      using takeWhile_append2 [of ds is_digit "u @ r'", OF d] not_digit_head(1) [OF assms(2) u(2) h]
      by simp
    have dr: "dropWhile is_digit (ds @ u @ r') = u @ r'"
      using dropWhile_append2 [of ds is_digit "u @ r'", OF d] not_digit_head(2) [OF assms(2) u(2) h]
      by simp
    have "parse_number ((sign @ d # ds @ u) @ r') = Some ((sign @ [d] @ ds) @ u, r')"
      using False dg u(3) sg [OF dg, of "ds @ u @ r'"]
      by (simp add: parse_number_def Let_def tk dr)
    with u(1,2) s s1 q show ?thesis by simp
  qed
qed

lemma parse_number_token:
  "parse_number s = Some (t, r) \<Longrightarrow> number_token t"
  using parse_number_extend [of s t r "[]"] by (simp add: number_token_def ends_number_def)

lemma number_token_extend:
  "number_token t \<Longrightarrow> ends_number r \<Longrightarrow> parse_number (t @ r) = Some (t, r)"
  using parse_number_extend [of t t "[]" r] by (simp add: number_token_def)

lemma number_token_head:
  "number_token t \<Longrightarrow> \<exists>c q. t = c # q \<and> (c = 0x2D \<or> is_digit c)"
  by (cases t)
    (auto simp: number_token_def parse_number_def Let_def is_digit_def split: if_splits list.splits)

subsection \<open>Properties of JSON: strings\<close>

lemma hex4_low:
  "list_all (\<lambda>n. hex4 0x30 0x30 (hex_digit (n div 16)) (hex_digit (n mod 16)) = Some (of_nat n))
     [0..<32]"
  by code_simp

lemma hex4_control:
  assumes "c < 0x20"
  shows "hex4 0x30 0x30 (hex_digit (unat c div 16)) (hex_digit (unat c mod 16)) = Some c"
proof -
  from assms have "unat c < 32" by (simp add: word_less_nat_alt)
  then have "unat c \<in> set [0..<32]" by simp
  with hex4_low have "hex4 0x30 0x30 (hex_digit (unat c div 16)) (hex_digit (unat c mod 16))
                        = Some (of_nat (unat c))"
    unfolding list_all_iff by blast
  then show ?thesis by simp
qed

lemma parse_chars_quote_char:
  "parse_chars (quote_char c @ r) = cons_fst c (parse_chars r)"
proof -
  consider "c = 0x22" | "c = 0x5C" | "c = 0x08" | "c = 0x0C" | "c = 0x0A" | "c = 0x0D" | "c = 0x09"
    | "c < 0x20" "c \<noteq> 0x08" "c \<noteq> 0x0C" "c \<noteq> 0x0A" "c \<noteq> 0x0D" "c \<noteq> 0x09"
    | "\<not> c < 0x20" "c \<noteq> 0x22" "c \<noteq> 0x5C"
    by fastforce
  then show ?thesis
  proof cases
    case 8
    then have "c \<noteq> 0x22" "c \<noteq> 0x5C" by auto
    with 8 show ?thesis
      by (simp add: quote_char_def hex4_control)
  next
    case 9
    then have "c \<noteq> 0x08" "c \<noteq> 0x0C" "c \<noteq> 0x0A" "c \<noteq> 0x0D" "c \<noteq> 0x09" by auto
    with 9 show ?thesis by (simp add: quote_char_def)
  qed (simp_all add: quote_char_def unescape_def)
qed

lemma parse_chars_end: "parse_chars (0x22 # r) = Some ([], r)"
  by simp

lemma parse_chars_quote:
  "parse_chars (concat (map quote_char s) @ 0x22 # r) = Some (s, r)"
  by (induction s)
    (simp_all add: parse_chars_quote_char parse_chars_end cons_fst_def del: parse_chars.simps(2))

subsection \<open>Properties of JSON: objects in enumeration order\<close>

lemma insert_index_keys:
  "fst ` set (insert_index k v kvs) = insert k (fst ` set kvs)"
proof (induction kvs)
  case Nil
  show ?case by simp
next
  case (Cons a kvs)
  then show ?case by (cases a) (simp add: insert_commute)
qed

lemma insert_index_values:
  "snd ` set (insert_index k v kvs) = insert v (snd ` set kvs)"
proof (induction kvs)
  case Nil
  show ?case by simp
next
  case (Cons a kvs)
  then show ?case by (cases a) (simp add: insert_commute)
qed

lemma insert_index_order:
  assumes "is_array_index k" and "k \<notin> set (map fst kvs)" and "enumeration_order kvs"
  shows "enumeration_order (insert_index k v kvs)"
  using assms(2,3)
proof (induction kvs)
  case Nil
  then show ?case by (simp add: enumeration_order_def)
next
  case (Cons a kvs)
  obtain k' v' where a: "a = (k', v')" by (cases a)
  from Cons.prems have tl: "enumeration_order kvs" and nk: "k \<notin> set (map fst kvs)" "k \<noteq> k'"
    and d: "k' \<notin> set (map fst kvs)" and b: "\<forall>x \<in> set (map fst kvs). key_before k' x"
    by (auto simp: enumeration_order_def a)
  show ?case
  proof (cases "is_array_index k' \<and> index_value k' \<le> index_value k")
    case True
    from Cons.IH [OF nk(1) tl] have ih: "enumeration_order (insert_index k v kvs)" .
    have "key_before k' k" using True assms(1) by (simp add: key_before_def)
    with b have "\<forall>x \<in> fst ` set (insert_index k v kvs). key_before k' x"
      unfolding insert_index_keys by auto
    with ih d nk True show ?thesis
      by (simp add: a enumeration_order_def insert_index_keys)
  next
    case False
    have "key_before k k'" using False assms(1) by (auto simp: key_before_def)
    moreover have "\<forall>x \<in> set (map fst kvs). key_before k x"
    proof
      fix x assume x: "x \<in> set (map fst kvs)"
      with b have kb: "key_before k' x" by blast
      show "key_before k x"
      proof (cases "is_array_index k'")
        case True
        with False have "index_value k < index_value k'" by simp
        with kb True assms(1) show ?thesis by (auto simp: key_before_def)
      next
        case False
        with kb have "\<not> is_array_index x" by (simp add: key_before_def)
        with assms(1) show ?thesis by (simp add: key_before_def)
      qed
    qed
    moreover have "insert_index k v ((k', v') # kvs) = (k, v) # (k', v') # kvs"
      by (simp only: insert_index.simps False if_False)
    ultimately show ?thesis
      using Cons.prems nk by (simp add: a enumeration_order_def del: insert_index.simps)
  qed
qed

lemma insert_index_last:
  assumes "is_array_index k" and "\<forall>x \<in> set (map fst kvs). key_before x k"
  shows "insert_index k v kvs = kvs @ [(k, v)]"
  using assms(2)
proof (induction kvs)
  case Nil
  show ?case by simp
next
  case (Cons a kvs)
  obtain k' v' where a: "a = (k', v')" by (cases a)
  from Cons.prems assms(1) have "is_array_index k' \<and> index_value k' \<le> index_value k"
    by (auto simp: a key_before_def split: if_splits)
  with Cons show ?case by (simp add: a)
qed

lemma put_property_order:
  assumes "enumeration_order kvs"
  shows "enumeration_order (put_property kv kvs)"
proof (cases "fst kv \<in> fst ` set kvs")
  case True
  have m: "map fst (map (\<lambda>kv'. if fst kv' = fst kv then kv else kv') kvs) = map fst kvs"
    by (induction kvs) auto
  from True have p: "put_property kv kvs = map (\<lambda>kv'. if fst kv' = fst kv then kv else kv') kvs"
    by (simp add: put_property_def)
  show ?thesis
    unfolding enumeration_order_def p m using assms [unfolded enumeration_order_def] .
next
  case False
  show ?thesis
  proof (cases "is_array_index (fst kv)")
    case True
    with False assms insert_index_order [of "fst kv" kvs "snd kv"] show ?thesis
      by (simp add: put_property_def)
  next
    case i: False
    then have "\<forall>x \<in> set (map fst kvs). key_before x (fst kv)"
      by (simp add: key_before_def)
    with assms False i show ?thesis
      by (auto simp: put_property_def enumeration_order_def sorted_wrt_append)
  qed
qed

lemma put_property_values:
  "snd ` set (put_property kv kvs) \<subseteq> insert (snd kv) (snd ` set kvs)"
  by (auto simp: put_property_def insert_index_values split: if_splits)

lemma put_property_last:
  assumes "enumeration_order (kvs @ [kv])"
  shows "put_property kv kvs = kvs @ [kv]"
proof -
  from assms have n: "fst kv \<notin> fst ` set kvs"
    and b: "\<forall>x \<in> set (map fst kvs). key_before x (fst kv)"
    by (auto simp: enumeration_order_def sorted_wrt_append)
  show ?thesis
  proof (cases "is_array_index (fst kv)")
    case True
    with n insert_index_last [OF True b, of "snd kv"] show ?thesis
      by (simp add: put_property_def)
  next
    case False
    with n show ?thesis by (simp add: put_property_def)
  qed
qed

lemma enumeration_order_prefix:
  "enumeration_order (xs @ ys) \<Longrightarrow> enumeration_order xs"
  by (auto simp: enumeration_order_def sorted_wrt_append)

lemma fold_put_property_id:
  "enumeration_order (xs @ ys) \<Longrightarrow> fold put_property ys xs = xs @ ys"
proof (induction ys arbitrary: xs)
  case Nil
  show ?case by simp
next
  case (Cons kv ys)
  from Cons.prems have "enumeration_order ((xs @ [kv]) @ ys)" by simp
  then have "fold put_property ys (xs @ [kv]) = (xs @ [kv]) @ ys"
    and "enumeration_order (xs @ [kv])"
    by (rule Cons.IH, rule enumeration_order_prefix)
  then show ?case by (simp add: put_property_last)
qed

lemma fold_put_property_order:
  "enumeration_order xs \<Longrightarrow> enumeration_order (fold put_property ys xs)"
  by (induction ys arbitrary: xs) (simp_all add: put_property_order)

lemma fold_put_property_values:
  "snd ` set (fold put_property ys xs) \<subseteq> snd ` set xs \<union> snd ` set ys"
proof (induction ys arbitrary: xs)
  case Nil
  show ?case by simp
next
  case (Cons kv ys)
  from Cons.IH [of "put_property kv xs"] put_property_values [of kv xs]
  show ?case by auto
qed

lemma enumeration_order_filter:
  "enumeration_order kvs \<Longrightarrow> enumeration_order (filter P kvs)"
  by (simp add: enumeration_order_def distinct_map_filter sorted_wrt_map sorted_wrt_filter)

lemma enumeration_order_map_snd:
  "enumeration_order (map (\<lambda>kv. (fst kv, g (snd kv))) kvs) = enumeration_order kvs"
  by (simp add: enumeration_order_def comp_def)

subsection \<open>Properties of JSON: values of the parser\<close>

lemma object_of_well_formed:
  assumes "\<forall>kv \<in> set ms. well_formed (snd kv)"
  shows "well_formed (object_of ms)"
proof -
  have "enumeration_order (fold put_property ms [])"
    by (rule fold_put_property_order) (simp add: enumeration_order_def)
  moreover have "\<forall>kv \<in> set (fold put_property ms []). well_formed (snd kv)"
  proof
    fix kv assume "kv \<in> set (fold put_property ms [])"
    then have "snd kv \<in> snd ` set (fold put_property ms [])" by (rule imageI)
    with fold_put_property_values [of ms "[]"] have "snd kv \<in> snd ` set ms" by auto
    then obtain kv' where "kv' \<in> set ms" "snd kv = snd kv'" by auto
    with assms show "well_formed (snd kv)" by simp
  qed
  ultimately show ?thesis by (simp add: object_of_def)
qed

lemma cons_fst_Some:
  "cons_fst x r = Some (ys, rest) \<longleftrightarrow> (\<exists>xs. r = Some (xs, rest) \<and> ys = x # xs)"
  by (cases r) (auto simp: cons_fst_def)

lemma parse_well_formed:
  "(\<forall>s v r. parse_value n s = Some (v, r) \<longrightarrow> well_formed v)
   \<and> (\<forall>s vs r. parse_elements n s = Some (vs, r) \<longrightarrow> (\<forall>v \<in> set vs. well_formed v))
   \<and> (\<forall>s ms r. parse_members n s = Some (ms, r) \<longrightarrow> (\<forall>kv \<in> set ms. well_formed (snd kv)))"
proof (induction n)
  case 0
  show ?case by simp
next
  case (Suc n)
  then have ihv: "\<And>s v r. parse_value n s = Some (v, r) \<Longrightarrow> well_formed v"
    and ihe: "\<And>s vs r v. parse_elements n s = Some (vs, r) \<Longrightarrow> v \<in> set vs \<Longrightarrow> well_formed v"
    and ihm: "\<And>s ms r k v. parse_members n s = Some (ms, r) \<Longrightarrow> (k, v) \<in> set ms
                \<Longrightarrow> well_formed v"
    by fastforce+
  have v: "well_formed v" if "parse_value (Suc n) s = Some (v, r)" for s v r
  proof (cases s)
    case Nil
    with that show ?thesis by simp
  next
    case (Cons c q)
    consider "c = 0x7B" | "c \<noteq> 0x7B" "c = 0x5B" | "c \<noteq> 0x7B" "c \<noteq> 0x5B" "c = 0x22"
      | "c \<noteq> 0x7B" "c \<noteq> 0x5B" "c \<noteq> 0x22" "c = 0x2D \<or> is_digit c"
      | "c \<noteq> 0x7B" "c \<noteq> 0x5B" "c \<noteq> 0x22" "\<not> (c = 0x2D \<or> is_digit c)"
      by blast
    then show ?thesis
    proof cases
      case 1
      with that Cons have "v = JsonObject []
          \<or> (\<exists>t ms. parse_members n t = Some (ms, r) \<and> v = object_of ms)"
        by (auto split: list.splits option.splits if_splits)
      then show ?thesis
      proof
        assume "v = JsonObject []"
        then show ?thesis by (simp add: enumeration_order_def)
      next
        assume "\<exists>t ms. parse_members n t = Some (ms, r) \<and> v = object_of ms"
        then obtain t ms where t: "parse_members n t = Some (ms, r)" "v = object_of ms" by blast
        with ihm have "\<forall>kv \<in> set ms. well_formed (snd kv)" by auto
        then show ?thesis unfolding t(2) by (rule object_of_well_formed)
      qed
    next
      case 2
      with that Cons show ?thesis
        by (auto split: list.splits option.splits if_splits intro: ihe)
    next
      case 3
      with that Cons show ?thesis
        by (auto split: option.splits)
    next
      case 4
      with that Cons show ?thesis
        by (auto simp: parse_number_token split: option.splits)
    next
      case 5
      with that Cons show ?thesis
        by (auto split: if_splits)
    qed
  qed
  have e: "\<forall>v \<in> set vs. well_formed v" if "parse_elements (Suc n) s = Some (vs, r)" for s vs r
    using that
    apply (auto simp: cons_fst_Some split: list.splits option.splits if_splits)
      apply (erule ihv)
     apply (erule ihe, assumption)
    apply (erule ihv)
    done
  have m: "\<forall>kv \<in> set ms. well_formed (snd kv)" if "parse_members (Suc n) s = Some (ms, r)" for s ms r
    using that
    by (auto simp: cons_fst_Some split: list.splits option.splits if_splits)
      (blast intro: ihv ihm)+
  from v e m show ?case by blast
qed

lemma JSON_parse_well_formed:
  assumes "JSON_parse text = Some v"
  shows "well_formed v"
proof -
  from assms obtain r where "parse_value (2 * length text + 2) (skip_ws text) = Some (v, r)"
    unfolding JSON_parse_def by (auto split: option.splits if_splits)
  with parse_well_formed [of "2 * length text + 2"] show ?thesis by blast
qed

lemma delete_property_well_formed:
  "well_formed v \<Longrightarrow> delete_property k v = Inr v' \<Longrightarrow> well_formed v'"
  by (cases v) (auto simp: delete_property_def enumeration_order_filter)

subsection \<open>Properties of JSON: reading what was written\<close>

lemma value_start_not_ws: "value_start c \<Longrightarrow> \<not> is_json_ws c"
  by (auto simp: value_start_def is_json_ws_def is_digit_def)

lemma skip_ws_start: "\<not> is_json_ws c \<Longrightarrow> skip_ws (c # q) = c # q"
  by (simp add: skip_ws_def)

lemma skip_ws_indent:
  assumes "\<forall>c \<in> set ind. c = 0x20"
  shows "skip_ws (0x0A # ind @ s) = skip_ws s" and "skip_ws (ind @ s) = skip_ws s"
    and "skip_ws (0x20 # s) = skip_ws s"
proof -
  have a: "\<And>x. x \<in> set ind \<Longrightarrow> is_json_ws x" using assms by (simp add: is_json_ws_def)
  show "skip_ws (ind @ s) = skip_ws s"
    unfolding skip_ws_def by (rule dropWhile_append2) (rule a)
  then show "skip_ws (0x0A # ind @ s) = skip_ws s"
    by (simp add: skip_ws_def is_json_ws_def)
  show "skip_ws (0x20 # s) = skip_ws s"
    by (simp add: skip_ws_def is_json_ws_def)
qed

lemma skip_ws_space: "skip_ws (0x20 # s) = skip_ws s"
  by (simp add: skip_ws_def is_json_ws_def)

lemma ends_number_simps:
  "ends_number (0x2C # s)" "ends_number (0x0A # s)" "ends_number []"
  by (simp_all add: ends_number_def is_digit_def)

lemma stringify_start:
  assumes "number_text_ok num" and "well_formed v"
  shows "\<exists>c q. stringify num ind v = c # q \<and> value_start c"
proof (cases v)
  case (JsonNumber t)
  with assms have "num t = str ''null'' \<or> number_token (num t)"
    by (auto simp: number_text_ok_def)
  then show ?thesis
  proof
    assume "num t = str ''null''"
    with JsonNumber show ?thesis by (simp add: str_def value_start_def)
  next
    assume "number_token (num t)"
    from number_token_head [OF this] JsonNumber show ?thesis
      by (auto simp: value_start_def)
  qed
qed (auto simp: str_def value_start_def quote_def)

lemma parse_value_leaf:
  "parse_value (Suc m) (str ''null'' @ rest) = Some (JsonNull, rest)"
  "parse_value (Suc m) (str ''true'' @ rest) = Some (JsonBool True, rest)"
  "parse_value (Suc m) (str ''false'' @ rest) = Some (JsonBool False, rest)"
  "parse_value (Suc m) (quote s @ rest) = Some (JsonString s, rest)"
  by (simp_all add: str_def is_digit_def quote_def parse_chars_quote del: parse_chars.simps)

lemma parse_value_number:
  assumes "number_token t" and "ends_number rest"
  shows "parse_value (Suc m) (t @ rest) = Some (JsonNumber t, rest)"
proof -
  from number_token_head [OF assms(1)] obtain c q
    where t: "t = c # q" and c: "c = 0x2D \<or> is_digit c" by blast
  from c have n: "c \<noteq> 0x7B" "c \<noteq> 0x5B" "c \<noteq> 0x22" by (auto simp: is_digit_def)
  have "parse_number ((c # q) @ rest) = Some (c # q, rest)"
    using number_token_extend [OF assms] t by simp
  with n c show ?thesis unfolding t by simp
qed

lemma join_Cons: "xs \<noteq> [] \<Longrightarrow> join sep (x # xs) = x @ sep @ join sep xs"
  by (cases xs) simp_all

lemma join_start:
  assumes "xs \<noteq> []" and "\<exists>c q. hd xs = c # q \<and> P c"
  shows "\<exists>c q. join sep xs @ s = c # q \<and> P c"
proof (cases xs)
  case Nil
  with assms(1) show ?thesis by simp
next
  case (Cons x ys)
  with assms(2) obtain c q where "x = c # q" "P c" by auto
  with Cons show ?thesis by (cases ys) auto
qed

lemma parse_elements_join:
  fixes pr :: "json \<Rightarrow> jsstring" and nm :: "json \<Rightarrow> json"
  assumes "vs \<noteq> []"
    and "\<forall>c \<in> set ind. c = 0x20" and "\<forall>c \<in> set ind'. c = 0x20"
    and "\<And>v. v \<in> set vs \<Longrightarrow> \<exists>c q. pr v = c # q \<and> value_start c"
    and "\<And>v n rest. v \<in> set vs \<Longrightarrow> ends_number rest \<Longrightarrow> need v \<le> n
           \<Longrightarrow> parse_value n (pr v @ rest) = Some (nm v, rest)"
    and "sum_list (map (\<lambda>v. Suc (need v)) vs) \<le> n"
  shows "parse_elements n (join (0x2C # 0x0A # ind') (map pr vs) @ 0x0A # ind @ 0x5D # rest)
           = Some (map nm vs, rest)"
  using assms
proof (induction vs arbitrary: n rule: list_nonempty_induct)
  case (single v)
  from single.prems(5) obtain m where n: "n = Suc m" and m: "need v \<le> m"
    by (cases n) auto
  have p: "parse_value m (pr v @ 0x0A # ind @ 0x5D # rest)
             = Some (nm v, 0x0A # ind @ 0x5D # rest)"
    by (rule single.prems(4)) (simp_all add: ends_number_simps m)
  have k: "skip_ws (0x0A # ind @ 0x5D # rest) = 0x5D # rest"
    using skip_ws_indent(1) [OF single.prems(1), of "0x5D # rest"]
    by (simp add: skip_ws_start is_json_ws_def)
  show ?case unfolding n by (simp add: p k)
next
  case (cons v vs)
  let ?sep = "0x2C # 0x0A # ind'"
  let ?tail = "join ?sep (map pr vs) @ 0x0A # ind @ 0x5D # rest"
  from cons.prems(5) obtain m where n: "n = Suc m" and m: "need v \<le> m"
    and ms: "sum_list (map (\<lambda>v. Suc (need v)) vs) \<le> m"
    by (cases n) auto
  have j: "join ?sep (map pr (v # vs)) = pr v @ ?sep @ join ?sep (map pr vs)"
    using cons.hyps by (simp add: join_Cons)
  have p: "parse_value m (pr v @ 0x2C # 0x0A # ind' @ ?tail)
             = Some (nm v, 0x2C # 0x0A # ind' @ ?tail)"
    by (rule cons.prems(4)) (simp_all add: ends_number_simps m)
  have "\<exists>c q. hd (map pr vs) = c # q \<and> value_start c"
    using cons.hyps cons.prems(3) [of "hd vs"] by (cases vs) auto
  with cons.hyps obtain c q where h: "?tail = c # q" "value_start c"
    using join_start [of "map pr vs" value_start ?sep "0x0A # ind @ 0x5D # rest"] by auto
  have k: "skip_ws (0x0A # ind' @ ?tail) = ?tail"
    using skip_ws_indent(1) [OF cons.prems(2), of ?tail] h
    by (simp add: skip_ws_start value_start_not_ws)
  have ih: "parse_elements m ?tail = Some (map nm vs, rest)"
    using cons.prems(1,2,3,4) ms by (intro cons.IH) auto
  show ?case
    unfolding n j
    by (simp add: p k ih skip_ws_start is_json_ws_def cons_fst_def)
qed

lemma parse_members_join:
  fixes pr :: "json \<Rightarrow> jsstring" and nm :: "json \<Rightarrow> json"
  assumes "kvs \<noteq> []"
    and "\<forall>c \<in> set ind. c = 0x20" and "\<forall>c \<in> set ind'. c = 0x20"
    and "\<And>kv. kv \<in> set kvs \<Longrightarrow> \<exists>c q. pr (snd kv) = c # q \<and> value_start c"
    and "\<And>kv n rest. kv \<in> set kvs \<Longrightarrow> ends_number rest \<Longrightarrow> need (snd kv) \<le> n
           \<Longrightarrow> parse_value n (pr (snd kv) @ rest) = Some (nm (snd kv), rest)"
    and "sum_list (map (\<lambda>kv. Suc (need (snd kv))) kvs) \<le> n"
  shows "parse_members n
           (join (0x2C # 0x0A # ind')
              (map (\<lambda>kv. quote (fst kv) @ 0x3A # 0x20 # pr (snd kv)) kvs)
            @ 0x0A # ind @ 0x7D # rest)
           = Some (map (\<lambda>kv. (fst kv, nm (snd kv))) kvs, rest)"
  using assms
proof (induction kvs arbitrary: n rule: list_nonempty_induct)
  case (single kv)
  from single.prems(5) obtain m where n: "n = Suc m" and m: "need (snd kv) \<le> m"
    by (cases n) auto
  obtain c q where h: "pr (snd kv) = c # q" "value_start c"
    using single.prems(3) [of kv] by auto
  have p: "parse_value m (pr (snd kv) @ 0x0A # ind @ 0x7D # rest)
             = Some (nm (snd kv), 0x0A # ind @ 0x7D # rest)"
    by (rule single.prems(4)) (simp_all add: ends_number_simps m)
  have k: "skip_ws (0x0A # ind @ 0x7D # rest) = 0x7D # rest"
    using skip_ws_indent(1) [OF single.prems(1), of "0x7D # rest"]
    by (simp add: skip_ws_start is_json_ws_def)
  have w: "skip_ws (0x20 # pr (snd kv) @ 0x0A # ind @ 0x7D # rest)
             = pr (snd kv) @ 0x0A # ind @ 0x7D # rest"
    using h by (simp add: skip_ws_space skip_ws_start value_start_not_ws)
  have c: "parse_chars (concat (map quote_char (fst kv))
                @ 0x22 # 0x3A # 0x20 # pr (snd kv) @ 0x0A # ind @ 0x7D # rest)
             = Some (fst kv, 0x3A # 0x20 # pr (snd kv) @ 0x0A # ind @ 0x7D # rest)"
    by (rule parse_chars_quote)
  show ?case
    unfolding n by (simp add: quote_def c w p k skip_ws_start is_json_ws_def)
next
  case (cons kv kvs)
  let ?sep = "0x2C # 0x0A # ind'"
  let ?mem = "\<lambda>kv. quote (fst kv) @ 0x3A # 0x20 # pr (snd kv)"
  let ?tail = "join ?sep (map ?mem kvs) @ 0x0A # ind @ 0x7D # rest"
  from cons.prems(5) obtain m where n: "n = Suc m" and m: "need (snd kv) \<le> m"
    and ms: "sum_list (map (\<lambda>kv. Suc (need (snd kv))) kvs) \<le> m"
    by (cases n) auto
  obtain c q where h: "pr (snd kv) = c # q" "value_start c"
    using cons.prems(3) [of kv] by auto
  have "join ?sep (map ?mem (kv # kvs)) = ?mem kv @ ?sep @ join ?sep (map ?mem kvs)"
    using cons.hyps by (simp add: join_Cons)
  then have j: "join ?sep (map ?mem (kv # kvs)) @ 0x0A # ind @ 0x7D # rest
      = 0x22 # concat (map quote_char (fst kv))
        @ 0x22 # 0x3A # 0x20 # pr (snd kv) @ 0x2C # 0x0A # ind' @ ?tail"
    by (simp only: quote_def append_Cons append_Nil append_assoc)
  have p: "parse_value m (pr (snd kv) @ 0x2C # 0x0A # ind' @ ?tail)
             = Some (nm (snd kv), 0x2C # 0x0A # ind' @ ?tail)"
    by (rule cons.prems(4)) (simp_all add: ends_number_simps m)
  have w: "skip_ws (0x20 # pr (snd kv) @ 0x2C # 0x0A # ind' @ ?tail)
             = pr (snd kv) @ 0x2C # 0x0A # ind' @ ?tail"
    using h by (simp add: skip_ws_space skip_ws_start value_start_not_ws)
  have "\<exists>c q. hd (map ?mem kvs) = c # q \<and> c = 0x22"
    using cons.hyps by (cases kvs) (auto simp: quote_def)
  with cons.hyps obtain c' q' where t: "?tail = c' # q'" "c' = 0x22"
    using join_start [of "map ?mem kvs" "\<lambda>c. c = 0x22" ?sep "0x0A # ind @ 0x7D # rest"] by auto
  have k: "skip_ws (0x0A # ind' @ ?tail) = ?tail"
    using skip_ws_indent(1) [OF cons.prems(2), of ?tail] t
    by (simp add: skip_ws_start is_json_ws_def)
  have c: "parse_chars (concat (map quote_char (fst kv))
                @ 0x22 # 0x3A # 0x20 # pr (snd kv) @ 0x2C # 0x0A # ind' @ ?tail)
             = Some (fst kv, 0x3A # 0x20 # pr (snd kv) @ 0x2C # 0x0A # ind' @ ?tail)"
    by (rule parse_chars_quote)
  have ih: "parse_members m ?tail = Some (map (\<lambda>kv. (fst kv, nm (snd kv))) kvs, rest)"
    using cons.prems(1,2,3,4) ms by (intro cons.IH) auto
  show ?case
    unfolding n j
    by (simp add: c w p k ih skip_ws_start is_json_ws_def cons_fst_def)
qed

lemma value_start_not_close: "value_start c \<Longrightarrow> c \<noteq> 0x5D \<and> c \<noteq> 0x7D"
  by (auto simp: value_start_def is_digit_def)

lemma parse_stringify:
  assumes ok: "number_text_ok num"
  shows "well_formed v \<Longrightarrow> \<forall>c \<in> set ind. c = 0x20 \<Longrightarrow> ends_number rest \<Longrightarrow> need v \<le> n
           \<Longrightarrow> parse_value n (stringify num ind v @ rest) = Some (normal num v, rest)"
proof (induction v arbitrary: n ind rest)
  case JsonNull
  then obtain m where "n = Suc m" by (cases n) auto
  then show ?case by (simp add: parse_value_leaf del: parse_value.simps)
next
  case (JsonBool b)
  then obtain m where "n = Suc m" by (cases n) auto
  then show ?case by (simp add: parse_value_leaf del: parse_value.simps)
next
  case (JsonNumber t)
  then obtain m where n: "n = Suc m" by (cases n) auto
  from JsonNumber.prems(1) ok have "num t = str ''null'' \<or> number_token (num t)"
    by (auto simp: number_text_ok_def)
  then show ?case
  proof
    assume "num t = str ''null''"
    then show ?thesis unfolding n by (simp add: parse_value_leaf del: parse_value.simps)
  next
    assume a: "number_token (num t)"
    then have "num t \<noteq> str ''null''"
      using number_token_head [OF a] by (auto simp: str_def is_digit_def)
    then show ?thesis
      unfolding n using parse_value_number [OF a JsonNumber.prems(3), of m] by simp
  qed
next
  case (JsonString s)
  then obtain m where "n = Suc m" by (cases n) auto
  then show ?case by (simp add: parse_value_leaf del: parse_value.simps)
next
  case (JsonArray vs)
  from JsonArray.prems(4) obtain m where n: "n = Suc m"
    and m: "sum_list (map (\<lambda>v. Suc (need v)) vs) \<le> m"
    by (cases n) auto
  show ?case
  proof (cases "vs = []")
    case True
    then show ?thesis unfolding n by (simp add: str_def skip_ws_start is_json_ws_def)
  next
    case False
    let ?ind = "ind @ [0x20, 0x20]"
    let ?tail = "join (0x2C # 0x0A # ?ind) (map (stringify num ?ind) vs) @ 0x0A # ind @ 0x5D # rest"
    have i: "\<forall>c \<in> set ?ind. c = 0x20" using JsonArray.prems(2) by simp
    have st: "\<exists>c q. stringify num ?ind v = c # q \<and> value_start c" if "v \<in> set vs" for v
      using that JsonArray.prems(1) by (intro stringify_start [OF ok]) simp
    have e: "parse_elements m ?tail = Some (map (normal num) vs, rest)"
    proof (rule parse_elements_join [OF False JsonArray.prems(2) i _ _ m])
      fix v assume "v \<in> set vs"
      then show "\<exists>c q. stringify num ?ind v = c # q \<and> value_start c" by (rule st)
    next
      fix v n' rest'
      assume "v \<in> set vs" "ends_number rest'" "need v \<le> n'"
      with JsonArray.prems(1) i
      show "parse_value n' (stringify num ?ind v @ rest') = Some (normal num v, rest')"
        by (intro JsonArray.IH) simp_all
    qed
    have "\<exists>c q. hd (map (stringify num ?ind) vs) = c # q \<and> value_start c"
      using False st [of "hd vs"] by (cases vs) auto
    with False obtain c q where h: "?tail = c # q" "value_start c"
      using join_start [of "map (stringify num ?ind) vs" value_start "0x2C # 0x0A # ?ind"
          "0x0A # ind @ 0x5D # rest"] by auto
    have "skip_ws (0x0A # ?ind @ ?tail) = c # q"
      using skip_ws_indent(1) [OF i, of ?tail] h
      by (simp add: skip_ws_start value_start_not_ws)
    then have k: "skip_ws (0x0A # ind @ 0x20 # 0x20 # ?tail) = c # q" by simp
    have t: "stringify num ind (JsonArray vs) @ rest = 0x5B # 0x0A # ?ind @ ?tail"
      using False by (simp add: str_def)
    have e': "parse_elements m (c # q) = Some (map (normal num) vs, rest)"
      using e h by simp
    show ?thesis
      unfolding n t using value_start_not_close [OF h(2)]
      by (simp add: k e' del: parse_elements.simps)
  qed
next
  case (JsonObject kvs)
  from JsonObject.prems(4) obtain m where n: "n = Suc m"
    and m: "sum_list (map (\<lambda>kv. Suc (need (snd kv))) kvs) \<le> m"
    by (cases n) auto
  show ?case
  proof (cases "kvs = []")
    case True
    then show ?thesis unfolding n by (simp add: str_def skip_ws_start is_json_ws_def)
  next
    case False
    let ?ind = "ind @ [0x20, 0x20]"
    let ?mem = "\<lambda>kv. quote (fst kv) @ 0x3A # 0x20 # stringify num ?ind (snd kv)"
    let ?tail = "join (0x2C # 0x0A # ?ind) (map ?mem kvs) @ 0x0A # ind @ 0x7D # rest"
    have i: "\<forall>c \<in> set ?ind. c = 0x20" using JsonObject.prems(2) by simp
    have st: "\<exists>c q. stringify num ?ind (snd kv) = c # q \<and> value_start c"
      if "kv \<in> set kvs" for kv
      using that JsonObject.prems(1) by (intro stringify_start [OF ok]) simp
    have e: "parse_members m ?tail
               = Some (map (\<lambda>kv. (fst kv, normal num (snd kv))) kvs, rest)"
    proof (rule parse_members_join [OF False JsonObject.prems(2) i _ _ m])
      fix kv assume "kv \<in> set kvs"
      then show "\<exists>c q. stringify num ?ind (snd kv) = c # q \<and> value_start c" by (rule st)
    next
      fix kv n' rest'
      assume a: "kv \<in> set kvs" "ends_number rest'" "need (snd kv) \<le> n'"
      have "snd kv \<in> Basic_BNFs.snds kv" by (cases kv) simp
      with a JsonObject.prems(1) i
      show "parse_value n' (stringify num ?ind (snd kv) @ rest')
              = Some (normal num (snd kv), rest')"
        by (intro JsonObject.IH [of kv]) simp_all
    qed
    have "\<exists>c q. hd (map ?mem kvs) = c # q \<and> c = 0x22"
      using False by (cases kvs) (auto simp: quote_def)
    with False obtain q where h: "?tail = 0x22 # q"
      using join_start [of "map ?mem kvs" "\<lambda>c. c = 0x22" "0x2C # 0x0A # ?ind"
          "0x0A # ind @ 0x7D # rest"] by auto
    have "skip_ws (0x0A # ?ind @ ?tail) = 0x22 # q"
      using skip_ws_indent(1) [OF i, of ?tail] h
      by (simp add: skip_ws_start is_json_ws_def)
    then have k: "skip_ws (0x0A # ind @ 0x20 # 0x20 # ?tail) = 0x22 # q" by simp
    have t: "stringify num ind (JsonObject kvs) @ rest = 0x7B # 0x0A # ?ind @ ?tail"
      using False by (simp add: str_def)
    have e': "parse_members m (0x22 # q)
               = Some (map (\<lambda>kv. (fst kv, normal num (snd kv))) kvs, rest)"
      using e h by simp
    have "enumeration_order ([] @ map (\<lambda>kv. (fst kv, normal num (snd kv))) kvs)"
      using JsonObject.prems(1) by (simp add: enumeration_order_map_snd)
    then have o: "object_of (map (\<lambda>kv. (fst kv, normal num (snd kv))) kvs)
               = JsonObject (map (\<lambda>kv. (fst kv, normal num (snd kv))) kvs)"
      unfolding object_of_def by (simp only: fold_put_property_id append_Nil)
    show ?thesis
      unfolding n t
      by (simp add: k e' o del: parse_members.simps)
  qed
qed

lemma stringify_normal:
  assumes ok: "number_text_ok num"
  shows "well_formed v \<Longrightarrow> stringify num ind (normal num v) = stringify num ind v"
proof (induction v arbitrary: ind)
  case (JsonNumber t)
  with ok show ?case by (auto simp: number_text_ok_def)
next
  case (JsonArray vs)
  then have e: "map (stringify num (ind @ str ''  '')) (map (normal num) vs)
               = map (stringify num (ind @ str ''  '')) vs"
    by (simp add: map_idI)
  show ?case by (simp add: e del: map_map)
next
  case (JsonObject kvs)
  let ?mem = "\<lambda>kv. quote (fst kv) @ str '': '' @ stringify num (ind @ str ''  '') (snd kv)"
  have "?mem (fst kv, normal num (snd kv)) = ?mem kv" if "kv \<in> set kvs" for kv
  proof -
    have "snd kv \<in> Basic_BNFs.snds kv" by (cases kv) simp
    with that JsonObject.prems show ?thesis by (simp add: JsonObject.IH [of kv])
  qed
  then have e: "map ?mem (map (\<lambda>kv. (fst kv, normal num (snd kv))) kvs) = map ?mem kvs"
    by simp
  show ?case by (simp add: e del: map_map)
qed simp_all

lemma length_join:
  "xs \<noteq> [] \<Longrightarrow> sep \<noteq> [] \<Longrightarrow> sum_list (map length xs) + length xs \<le> Suc (length (join sep xs))"
proof (induction xs rule: list_nonempty_induct)
  case (single x)
  show ?case by simp
next
  case (cons x xs)
  then show ?case by (cases sep) (simp_all add: join_Cons)
qed

lemma sum_list_Suc_twice:
  "sum_list (map (\<lambda>x. Suc (2 * f x)) xs) = length xs + 2 * sum_list (map f xs)"
  by (induction xs) simp_all

lemma need_bound_list:
  fixes pr :: "'a \<Rightarrow> jsstring" and nd :: "'a \<Rightarrow> nat"
  assumes "xs \<noteq> []" and "sep \<noteq> []" and "\<And>x. x \<in> set xs \<Longrightarrow> nd x \<le> 2 * length (pr x)"
  shows "sum_list (map (\<lambda>x. Suc (nd x)) xs) \<le> 2 + 2 * length (join sep (map pr xs))"
proof -
  have "sum_list (map (\<lambda>x. Suc (nd x)) xs) \<le> sum_list (map (\<lambda>x. Suc (2 * length (pr x))) xs)"
    using assms(3) by (intro sum_list_mono) simp
  also have "\<dots> = length xs + 2 * sum_list (map (length \<circ> pr) xs)"
    by (simp add: sum_list_Suc_twice comp_def)
  also have "\<dots> \<le> 2 * (sum_list (map length (map pr xs)) + length (map pr xs))"
    by (simp add: comp_def)
  also have "\<dots> \<le> 2 * Suc (length (join sep (map pr xs)))"
    using length_join [of "map pr xs" sep] assms(1,2) by simp
  finally show ?thesis by simp
qed

lemma need_bound:
  assumes ok: "number_text_ok num"
  shows "well_formed v \<Longrightarrow> need v \<le> 2 * length (stringify num ind v)"
proof (induction v arbitrary: ind)
  case (JsonNumber t)
  from stringify_start [OF ok JsonNumber, of ind] show ?case by auto
next
  case (JsonString s)
  show ?case by (simp add: quote_def)
next
  case (JsonArray vs)
  show ?case
  proof (cases "vs = []")
    case True
    then show ?thesis by (simp add: str_def)
  next
    case False
    have "sum_list (map (\<lambda>v. Suc (need v)) vs)
            \<le> 2 + 2 * length (join (str '','' @ [0x0A] @ (ind @ str ''  ''))
                               (map (stringify num (ind @ str ''  '')) vs))"
      using False JsonArray by (intro need_bound_list) (simp_all add: str_def)
    with False show ?thesis by (simp add: str_def)
  qed
next
  case (JsonObject kvs)
  show ?case
  proof (cases "kvs = []")
    case True
    then show ?thesis by (simp add: str_def)
  next
    case False
    let ?mem = "\<lambda>kv. quote (fst kv) @ str '': '' @ stringify num (ind @ str ''  '') (snd kv)"
    have "need (snd kv) \<le> 2 * length (?mem kv)" if "kv \<in> set kvs" for kv
    proof -
      have "snd kv \<in> Basic_BNFs.snds kv" by (cases kv) simp
      with that JsonObject.prems
      have "need (snd kv) \<le> 2 * length (stringify num (ind @ str ''  '') (snd kv))"
        by (intro JsonObject.IH [of kv]) simp_all
      then show ?thesis by simp
    qed
    then have "sum_list (map (\<lambda>kv. Suc (need (snd kv))) kvs)
            \<le> 2 + 2 * length (join (str '','' @ [0x0A] @ (ind @ str ''  '')) (map ?mem kvs))"
      using False by (intro need_bound_list) (simp_all add: str_def)
    with False show ?thesis by (simp add: str_def)
  qed
qed (simp_all add: str_def)

lemma JSON_parse_stringify:
  assumes ok: "number_text_ok num" and wf: "well_formed v"
  shows "JSON_parse (JSON_stringify num v) = Some (normal num v)"
proof -
  let ?text = "stringify num [] v"
  from stringify_start [OF ok wf, of "[]"] obtain c q
    where h: "?text = c # q" "value_start c" by blast
  then have s: "skip_ws ?text = ?text"
    by (simp add: skip_ws_start value_start_not_ws)
  have "need v \<le> 2 * length ?text + 2"
    using need_bound [OF ok wf, of "[]"] by simp
  then have "parse_value (2 * length ?text + 2) (?text @ []) = Some (normal num v, [])"
    using wf by (intro parse_stringify [OF ok]) (simp_all add: ends_number_simps)
  then show ?thesis
    unfolding JSON_parse_def JSON_stringify_def s by (simp add: skip_ws_def)
qed

subsection \<open>Properties of the compiler stage\<close>

lemma renders_append: "renders (a @ b) = renders a @ renders b"
  by (induction a rule: renders.induct) simp_all

lemma pushes_append: "pushes (a @ b) = pushes a @ pushes b"
  by (induction a rule: pushes.induct) simp_all

lemma errorHandler_trace:
  "pushes (errorHandler env f e)
     = [File (cwd f) (base f) (sourcePath env f @ sourceName env f @ str ''.css'') None (Some f) (Some e)]"
  "renders (errorHandler env f e) = []"
  "\<not> raises (errorHandler env f e)"
  "last (errorHandler env f e) = Done"
  "Done \<notin> set (butlast (errorHandler env f e))"
  by (simp_all add: errorHandler_def pushResult_def)

lemma successHandler_cases:
  "successHandler env f css smap = [Raise SyntaxError]
   \<or> successHandler env f css smap = [Raise TypeError]
   \<or> (\<exists>v. successHandler env f css smap
          = [Push (File (cwd f) (base f) (sourcePath env f @ sourceName env f @ str ''.css'')
                     (Some css) None None),
             Push (File (cwd f) (base f) (sourcePath env f @ sourceName env f @ str ''.css.map'')
                     (Some (JSON_stringify (Number_toString env) v)) None None),
             Done])"
  by (auto simp: successHandler_def delete_property_def pushResult_def
      split: option.splits json.splits sum.splits)

lemma successHandler_trace:
  "renders (successHandler env f css smap) = []"
  "raises (successHandler env f css smap) \<or> last (successHandler env f css smap) = Done"
  "Done \<notin> set (butlast (successHandler env f css smap))"
  using successHandler_cases [of env f css smap] by auto

lemma transpile_transform_cases:
  "transpile_transform env style libList f =
     Render (render_call style libList f None) #
       (case sass_render env (render_call style libList f None) of
          Failure e \<Rightarrow> errorHandler env f e
        | Success css0 smap0 \<Rightarrow>
            Render (render_call style libList f (Some (mapName env f))) #
              (case sass_render env (render_call style libList f (Some (mapName env f))) of
                 Failure e \<Rightarrow> errorHandler env f e
               | Success css smap \<Rightarrow> successHandler env f css smap))"
  by (simp add: transpile_transform_def Let_def)

lemma take_butlast_append:
  assumes "b \<noteq> []"
  shows "take (length b) (c # d @ b) = take (length b) (c # d @ butlast b)"
proof -
  from assms have "c # d @ b = (c # d @ butlast b) @ [last b]" by simp
  moreover from assms have "length b \<le> length (c # d @ butlast b)" by simp
  ultimately show ?thesis by (simp only: take_append) simp
qed

lemma replace_first_last:
  assumes "\<not> occurs b (d @ butlast b)"
  shows "replace_first b (d @ b) = d"
  using assms
proof (induction d)
  case Nil
  then have "b \<noteq> []" by auto
  then obtain c r where "b = c # r" by (cases b) auto
  then show ?case by simp
next
  case (Cons c d)
  from Cons.prems have n: "b \<noteq> []" by auto
  from Cons.prems have t: "take (length b) (c # d @ butlast b) \<noteq> b"
    and o: "\<not> occurs b (d @ butlast b)"
    by simp_all
  from n have "take (length b) (c # d @ b) = take (length b) (c # d @ butlast b)"
    by (rule take_butlast_append)
  with t have "take (length b) (c # d @ b) \<noteq> b" by (simp only: not_False_eq_True)
  moreover from o have "replace_first b (d @ b) = d" by (rule Cons.IH)
  ultimately show ?case by (simp only: append_Cons replace_first.simps if_False)
qed

text \<open>
  The error handler. When the compiler fails for a file, on the call without a source map
  or on the call with it, the stage pushes exactly one record: the path is the source path and name
  with \<open>.css\<close>, the working directory and base are those of the input, the contents are
  null, \<open>sassSource\<close> is the input record and \<open>sassError\<close> the error text. The transform
  does not raise and ends with \<open>done\<close>, and the run goes on with the files that follow.
  The record is named after the input, its directory \<open>d\<close> and its name \<open>stem\<close> with \<open>.css\<close>,
  when the path of the input is \<open>d\<close>, \<open>stem\<close> and the extension, the path library splits it
  so, and the name with its extension occurs nowhere earlier in the path: \<open>replace\<close> removes
  the first occurrence of the name, which is then the last.
\<close>

theorem transpile_failure_marker:
  "sass_render env (render_call style libList f None) = Failure e
   \<or> (sass_render env (render_call style libList f None) = Success css0 smap0
      \<and> sass_render env (render_call style libList f (Some (mapName env f))) = Failure e)
   \<longrightarrow>
     pushes (transpile_transform env style libList f)
       = [File (cwd f) (base f) (sourcePath env f @ sourceName env f @ str ''.css'')
            None (Some f) (Some e)]
     \<and> \<not> raises (transpile_transform env style libList f)
     \<and> last (transpile_transform env style libList f) = Done
     \<and> transpile env style libList (f # fs)
         = transpile_transform env style libList f @ transpile env style libList fs
     \<and> (path f = d @ stem @ ext
         \<and> path_basename env (path f) None = stem @ ext
         \<and> path_extname env (path f) = ext
         \<and> path_basename env (path f) (Some ext) = stem
         \<and> \<not> occurs (stem @ ext) (d @ butlast (stem @ ext))
        \<longrightarrow>
          pushes (transpile_transform env style libList f)
            = [File (cwd f) (base f) (d @ stem @ str ''.css'') None (Some f) (Some e)])"
proof
  assume a: "sass_render env (render_call style libList f None) = Failure e
   \<or> (sass_render env (render_call style libList f None) = Success css0 smap0
      \<and> sass_render env (render_call style libList f (Some (mapName env f))) = Failure e)"
  then have t: "transpile_transform env style libList f
            = Render (render_call style libList f None) # errorHandler env f e
         \<or> transpile_transform env style libList f
            = Render (render_call style libList f None)
              # Render (render_call style libList f (Some (mapName env f)))
              # errorHandler env f e"
    by (auto simp: transpile_transform_cases)
  have h: "errorHandler env f e \<noteq> []" by (simp add: errorHandler_def)
  from t h have p: "pushes (transpile_transform env style libList f)
       = [File (cwd f) (base f) (sourcePath env f @ sourceName env f @ str ''.css'')
            None (Some f) (Some e)]"
    and r: "\<not> raises (transpile_transform env style libList f)"
    and l: "last (transpile_transform env style libList f) = Done"
    by (auto simp: errorHandler_trace)
  from r have c: "transpile env style libList (f # fs)
         = transpile_transform env style libList f @ transpile env style libList fs"
    by (simp add: Let_def)
  have n: "pushes (transpile_transform env style libList f)
            = [File (cwd f) (base f) (d @ stem @ str ''.css'') None (Some f) (Some e)]"
    if s: "path f = d @ stem @ ext
         \<and> path_basename env (path f) None = stem @ ext
         \<and> path_extname env (path f) = ext
         \<and> path_basename env (path f) (Some ext) = stem
         \<and> \<not> occurs (stem @ ext) (d @ butlast (stem @ ext))"
  proof -
    from s have s1: "path f = d @ stem @ ext"
      and s2: "path_basename env (path f) None = stem @ ext"
      and s3: "path_extname env (path f) = ext"
      and s4: "path_basename env (path f) (Some ext) = stem"
      and s5: "\<not> occurs (stem @ ext) (d @ butlast (stem @ ext))"
      by blast+
    from s5 have "replace_first (stem @ ext) (d @ stem @ ext) = d"
      by (rule replace_first_last)
    with s1 s2 have "sourcePath env f = d" by (simp only: sourcePath_def)
    moreover from s3 s4 have "sourceName env f = stem" by (simp only: sourceName_def)
    ultimately show ?thesis using p by simp
  qed
  from p r l c n show "pushes (transpile_transform env style libList f)
       = [File (cwd f) (base f) (sourcePath env f @ sourceName env f @ str ''.css'')
            None (Some f) (Some e)]
     \<and> \<not> raises (transpile_transform env style libList f)
     \<and> last (transpile_transform env style libList f) = Done
     \<and> transpile env style libList (f # fs)
         = transpile_transform env style libList f @ transpile env style libList fs
     \<and> (path f = d @ stem @ ext
         \<and> path_basename env (path f) None = stem @ ext
         \<and> path_extname env (path f) = ext
         \<and> path_basename env (path f) (Some ext) = stem
         \<and> \<not> occurs (stem @ ext) (d @ butlast (stem @ ext))
        \<longrightarrow>
          pushes (transpile_transform env style libList f)
            = [File (cwd f) (base f) (d @ stem @ str ''.css'') None (Some f) (Some e)])"
    by (intro conjI impI)
qed

lemma sample_names:
  "sourcePath (sample_env c) sample_source = str ''/w/src/''"
  "sourceName (sample_env c) sample_source = str ''a''"
  "mapName (sample_env c) sample_source = str ''a.css.map''"
  by (simp_all add: sourcePath_def sourceName_def mapName_def sample_env_def sample_source_def
      sample_basename_def sample_extname_def str_def)

lemma sample_split:
  "path sample_source = str ''/w/src/'' @ str ''a'' @ str ''.scss''"
  "path_basename (sample_env c) (path sample_source) None = str ''a'' @ str ''.scss''"
  "path_extname (sample_env c) (path sample_source) = str ''.scss''"
  "path_basename (sample_env c) (path sample_source) (Some (str ''.scss'')) = str ''a''"
  "\<not> occurs (str ''a'' @ str ''.scss'') (str ''/w/src/'' @ butlast (str ''a'' @ str ''.scss''))"
  by (simp_all add: sample_env_def sample_source_def sample_basename_def sample_extname_def
      str_def)

theorem transpile_failure_marker_witness:
  "pushes (transpile_transform (sample_env fails_second) None [] sample_source)
     = [File (str ''/w'') (str ''/w/src'') (str ''/w/src/a.css'') None (Some sample_source)
          (Some (str ''source string:12: error: bad thing''))]
   \<and> pushes (transpile (sample_env fails_second) None [] [sample_source, sample_source])
     = [File (str ''/w'') (str ''/w/src'') (str ''/w/src/a.css'') None (Some sample_source)
          (Some (str ''source string:12: error: bad thing'')),
        File (str ''/w'') (str ''/w/src'') (str ''/w/src/a.css'') None (Some sample_source)
          (Some (str ''source string:12: error: bad thing''))]
   \<and> pushes (transpile_transform (sample_env fails_second) None [] sample_source)
     = [File (str ''/w'') (str ''/w/src'') (str ''/w/src/'' @ str ''a'' @ str ''.css'') None
          (Some sample_source) (Some (str ''source string:12: error: bad thing''))]"
proof -
  let ?env = "sample_env fails_second"
  let ?e = "str ''source string:12: error: bad thing''"
  have a: "sass_render ?env (render_call None [] sample_source None) = Failure ?e
   \<or> (sass_render ?env (render_call None [] sample_source None) = Success (str ''a{}'') []
      \<and> sass_render ?env (render_call None [] sample_source (Some (mapName ?env sample_source)))
          = Failure ?e)"
    by (simp add: sample_env_def fails_second_def render_call_def)
  have n: "sourcePath ?env sample_source @ sourceName ?env sample_source @ str ''.css''
             = str ''/w/src/a.css''"
    by (simp add: sample_names) (simp add: str_def)
  have c: "cwd sample_source = str ''/w''" "base sample_source = str ''/w/src''"
    by (simp_all add: sample_source_def)
  have s: "path sample_source = str ''/w/src/'' @ str ''a'' @ str ''.scss''
         \<and> path_basename ?env (path sample_source) None = str ''a'' @ str ''.scss''
         \<and> path_extname ?env (path sample_source) = str ''.scss''
         \<and> path_basename ?env (path sample_source) (Some (str ''.scss'')) = str ''a''
         \<and> \<not> occurs (str ''a'' @ str ''.scss'')
               (str ''/w/src/'' @ butlast (str ''a'' @ str ''.scss''))"
    by (intro conjI sample_split)
  note t1 = transpile_failure_marker [of ?env None "[]" sample_source ?e "str ''a{}''" "[]"
      "[sample_source]" "str ''/w/src/''" "str ''a''" "str ''.scss''", THEN mp, OF a]
  note t2 = transpile_failure_marker [of ?env None "[]" sample_source ?e "str ''a{}''" "[]"
      "[]" "str ''/w/src/''" "str ''a''" "str ''.scss''", THEN mp, OF a]
  note t3 = t1 [THEN conjunct2, THEN conjunct2, THEN conjunct2, THEN conjunct2, THEN mp, OF s]
  have u: "pushes (transpile_transform ?env None [] sample_source)
     = [File (str ''/w'') (str ''/w/src'') (str ''/w/src/a.css'') None (Some sample_source)
          (Some ?e)]
   \<and> pushes (transpile ?env None [] [sample_source, sample_source])
     = [File (str ''/w'') (str ''/w/src'') (str ''/w/src/a.css'') None (Some sample_source)
          (Some ?e),
        File (str ''/w'') (str ''/w/src'') (str ''/w/src/a.css'') None (Some sample_source)
          (Some ?e)]"
    using t1 [THEN conjunct1] t1 [THEN conjunct2, THEN conjunct2, THEN conjunct2, THEN conjunct1]
      t2 [THEN conjunct1] t2 [THEN conjunct2, THEN conjunct2, THEN conjunct2, THEN conjunct1]
    by (simp add: n c pushes_append del: transpile.simps(2))
  from t3 have v: "pushes (transpile_transform ?env None [] sample_source)
     = [File (str ''/w'') (str ''/w/src'') (str ''/w/src/'' @ str ''a'' @ str ''.css'') None
          (Some sample_source) (Some ?e)]"
    by (simp only: c)
  from u v show ?thesis by (intro conjI) (erule conjunct1, erule conjunct2, assumption)
qed

text \<open>
  Claim C3 at a failing input. The compiler fails for a file whose name occurs earlier in
  its path: for \<open>/w/a.scss.d/a.scss\<close> the path library gives the name \<open>a.scss\<close>, the extension \<open>.scss\<close> and
  the name \<open>a\<close> without it, and \<open>replace\<close> removes the first \<open>a.scss\<close>, that of the directory.
  The one record pushed is \<open>/w/.d/a.scssa.css\<close>, whose name is \<open>a.scssa.css\<close>, where the
  claim names it \<open>a.css\<close>, in the directory of the input.
\<close>

theorem transpile_marker_misnamed:
  "path sample_nested = str ''/w/a.scss.d/'' @ str ''a'' @ str ''.scss''
   \<and> path_basename (sample_env fails_first) (path sample_nested) None = str ''a.scss''
   \<and> path_extname (sample_env fails_first) (path sample_nested) = str ''.scss''
   \<and> path_basename (sample_env fails_first) (path sample_nested) (Some (str ''.scss'')) = str ''a''
   \<and> pushes (transpile_transform (sample_env fails_first) None [] sample_nested)
       = [File (str ''/w'') (str ''/w'') (str ''/w/.d/a.scssa.css'') None (Some sample_nested)
            (Some (str ''source string:12: error: bad thing''))]
   \<and> path_basename (sample_env fails_first) (str ''/w/.d/a.scssa.css'') None = str ''a.scssa.css''
   \<and> str ''/w/.d/a.scssa.css'' \<noteq> str ''/w/a.scss.d/'' @ str ''a'' @ str ''.css''"
proof -
  let ?env = "sample_env fails_first"
  have a: "sass_render ?env ro = Failure (str ''source string:12: error: bad thing'')" for ro
    by (simp add: sample_env_def fails_first_def)
  have b: "path sample_nested = str ''/w/a.scss.d/'' @ str ''a'' @ str ''.scss''"
    "path_basename ?env (path sample_nested) None = str ''a.scss''"
    "path_extname ?env (path sample_nested) = str ''.scss''"
    "path_basename ?env (path sample_nested) (Some (str ''.scss'')) = str ''a''"
    "path_basename ?env (str ''/w/.d/a.scssa.css'') None = str ''a.scssa.css''"
    "str ''/w/.d/a.scssa.css'' \<noteq> str ''/w/a.scss.d/'' @ str ''a'' @ str ''.css''"
    by (simp_all add: sample_env_def sample_nested_def sample_basename_def sample_extname_def
        str_def)
  have n: "sourcePath ?env sample_nested @ sourceName ?env sample_nested @ str ''.css''
             = str ''/w/.d/a.scssa.css''"
    by (simp add: sourcePath_def sourceName_def sample_env_def sample_nested_def
        sample_basename_def sample_extname_def str_def)
  have c: "cwd sample_nested = str ''/w''" "base sample_nested = str ''/w''"
    by (simp_all add: sample_nested_def)
  have p: "pushes (transpile_transform ?env None [] sample_nested)
       = [File (str ''/w'') (str ''/w'') (str ''/w/.d/a.scssa.css'') None (Some sample_nested)
            (Some (str ''source string:12: error: bad thing''))]"
    by (simp add: transpile_transform_cases a errorHandler_trace n c)
  from b p show ?thesis by (intro conjI)
qed


lemma handler_no_render:
  "takeWhile is_Render (errorHandler env f e) = []"
  "takeWhile is_Render (successHandler env f css smap) = []"
  using successHandler_cases [of env f css smap] by (auto simp: errorHandler_def)

text \<open>
  Claim C4, as the source has it. The transform calls the compiler first without a source
  map; it calls it a second time, with the source map \<open><name>.css.map\<close>, exactly when the
  first call succeeded, and never a third time. Both calls name the path of the file, the
  library list and the output style (\<open>compressed\<close> by default). Every call comes before
  anything is pushed or \<open>done\<close> is called; \<open>done\<close> is called at most once, as the last
  action of the handler of the last call, unless that handler raises.
\<close>

theorem transpile_render_sequence:
  "renders (transpile_transform env style libList f)
     = (case sass_render env (render_call style libList f None) of
          Failure e \<Rightarrow> [render_call style libList f None]
        | Success css0 smap0 \<Rightarrow>
            [render_call style libList f None,
             render_call style libList f (Some (mapName env f))])
   \<and> takeWhile is_Render (transpile_transform env style libList f)
     = map Render (renders (transpile_transform env style libList f))
   \<and> Done \<notin> set (butlast (transpile_transform env style libList f))
   \<and> (raises (transpile_transform env style libList f)
        \<or> last (transpile_transform env style libList f) = Done)
   \<and> render_file (render_call style libList f smap) = path f
   \<and> includePaths (render_call style libList f smap) = libList
   \<and> sourceMap (render_call style libList f smap) = smap
   \<and> outputStyle (render_call None libList f smap) = str ''compressed''
   \<and> (st \<noteq> [] \<longrightarrow> outputStyle (render_call (Some st) libList f smap) = st)"
proof -
  let ?t = "transpile_transform env style libList f"
  let ?first = "render_call style libList f None"
  let ?second = "render_call style libList f (Some (mapName env f))"
  have eh: "errorHandler env f e \<noteq> []" for e by (simp add: errorHandler_def)
  have sh: "successHandler env f css smap \<noteq> []" for css smap
    using successHandler_cases [of env f css smap] by auto
  have 1: "renders ?t = (case sass_render env ?first of
          Failure e \<Rightarrow> [?first] | Success css0 smap0 \<Rightarrow> [?first, ?second])"
    by (simp add: transpile_transform_cases errorHandler_trace successHandler_trace
        split: render_result.splits)
  have 2: "takeWhile is_Render ?t = map Render (renders ?t)"
    by (simp add: transpile_transform_cases errorHandler_trace successHandler_trace
        handler_no_render split: render_result.splits)
  have 3: "Done \<notin> set (butlast ?t)"
    using eh sh
    by (simp add: transpile_transform_cases errorHandler_trace successHandler_trace
        split: render_result.splits)
  have 4: "raises ?t \<or> last ?t = Done"
    using eh sh successHandler_trace(2)
    by (simp add: transpile_transform_cases errorHandler_trace split: render_result.splits)
  from 1 2 3 4 show ?thesis by (simp add: render_call_def)
qed

theorem transpile_render_sequence_witness:
  "renders (transpile_transform (sample_env fails_second) None [str ''/lib''] sample_source)
     = [\<lparr> render_file = str ''/w/src/a.scss'', includePaths = [str ''/lib''],
           outputStyle = str ''compressed'', sourceMap = None \<rparr>,
        \<lparr> render_file = str ''/w/src/a.scss'', includePaths = [str ''/lib''],
           outputStyle = str ''compressed'', sourceMap = Some (str ''a.css.map'') \<rparr>]
   \<and> outputStyle (render_call (Some (str ''nested'')) [] sample_source None) = str ''nested''"
proof -
  let ?env = "sample_env fails_second"
  have a: "sass_render ?env (render_call None [str ''/lib''] sample_source None)
             = Success (str ''a{}'') []"
    by (simp add: sample_env_def fails_second_def render_call_def)
  have n: "str ''nested'' \<noteq> []" by (simp add: str_def)
  have p: "path sample_source = str ''/w/src/a.scss''" by (simp add: sample_source_def)
  from transpile_render_sequence [of ?env None "[str ''/lib'']" sample_source None
      "str ''nested''"] a n p
  show ?thesis by (simp add: sample_names render_call_def)
qed

text \<open>
  The claim as written fails when the first call fails: the compiler is called once, the
  error handler pushes the marker and calls \<open>done\<close>, and no second call is made.
\<close>

theorem transpile_single_call_on_failure:
  "transpile_transform (sample_env fails_first) None [str ''/lib''] sample_source
     = [Render \<lparr> render_file = str ''/w/src/a.scss'', includePaths = [str ''/lib''],
                 outputStyle = str ''compressed'', sourceMap = None \<rparr>,
        Push (File (str ''/w'') (str ''/w/src'') (str ''/w/src/a.css'') None (Some sample_source)
                (Some (str ''source string:12: error: bad thing''))),
        Done]
   \<and> length (renders (transpile_transform (sample_env fails_first) None [str ''/lib'']
         sample_source)) = 1"
proof -
  let ?env = "sample_env fails_first"
  have a: "sass_render ?env ro = Failure (str ''source string:12: error: bad thing'')" for ro
    by (simp add: sample_env_def fails_first_def)
  have n: "sourcePath ?env sample_source @ sourceName ?env sample_source @ str ''.css''
             = str ''/w/src/a.css''"
    by (simp add: sample_names) (simp add: str_def)
  have c: "cwd sample_source = str ''/w''" "base sample_source = str ''/w/src''"
    "path sample_source = str ''/w/src/a.scss''"
    by (simp_all add: sample_source_def)
  show ?thesis
    by (simp add: transpile_transform_cases a errorHandler_def pushResult_def n c render_call_def)
qed

lemma sample_parsable:
  "parsable (sample_env succeeds) sample_source sample_map = sample_stripped"
  by code_simp

lemma sample_stripped_parse:
  "JSON_parse sample_stripped
     = Some (JsonObject
         [(str ''version'', JsonNumber (str ''3'')),
          (str ''file'', JsonString (str ''a.css'')),
          (str ''sources'', JsonArray [JsonString (str ''../a.scss'')]),
          (str ''names'', JsonArray []),
          (str ''mappings'', JsonString [])])"
  by code_simp

lemma sample_stringify: "JSON_stringify (\<lambda>t. t) sample_parsed = sample_emitted"
  by code_simp

lemma sample_emitted_parse: "JSON_parse sample_emitted = Some sample_parsed"
  by code_simp

lemma transpile_success_outputs:
  assumes "sass_render env (render_call style libList f None) = Success css0 smap0"
    and "sass_render env (render_call style libList f (Some (mapName env f))) = Success css smap"
    and "JSON_parse (parsable env f smap) = Some (JsonObject kvs)"
  shows "transpile_transform env style libList f
     = [Render (render_call style libList f None),
        Render (render_call style libList f (Some (mapName env f))),
        Push (File (cwd f) (base f) (sourcePath env f @ sourceName env f @ str ''.css'')
                (Some css) None None),
        Push (File (cwd f) (base f) (sourcePath env f @ sourceName env f @ str ''.css.map'')
                (Some (JSON_stringify (Number_toString env)
                   (JsonObject (filter (\<lambda>kv. fst kv \<noteq> str ''sourcesContent'')
                      (filter (\<lambda>kv. fst kv \<noteq> str ''file'') kvs)))))
                None None),
        Done]"
  using assms
  by (simp add: transpile_transform_cases successHandler_def delete_property_def pushResult_def)

lemma sample_success_trace:
  "transpile_transform (sample_env succeeds) None [] sample_source
     = [Render \<lparr> render_file = str ''/w/src/a.scss'', includePaths = [],
                 outputStyle = str ''compressed'', sourceMap = None \<rparr>,
        Render \<lparr> render_file = str ''/w/src/a.scss'', includePaths = [],
                 outputStyle = str ''compressed'', sourceMap = Some (str ''a.css.map'') \<rparr>,
        Push (File (str ''/w'') (str ''/w/src'') (str ''/w/src/a.css'') (Some (str ''a{}''))
                None None),
        Push (File (str ''/w'') (str ''/w/src'') (str ''/w/src/a.css.map'') (Some sample_emitted)
                None None),
        Done]"
proof -
  let ?env = "sample_env succeeds"
  have a: "sass_render ?env ro = Success (str ''a{}'') sample_map" for ro
    by (simp add: sample_env_def succeeds_def)
  have n: "sourcePath ?env sample_source @ sourceName ?env sample_source @ str ''.css''
             = str ''/w/src/a.css''"
    "sourcePath ?env sample_source @ sourceName ?env sample_source @ str ''.css.map''
             = str ''/w/src/a.css.map''"
    by (simp_all add: sample_names) (simp_all add: str_def)
  have c: "cwd sample_source = str ''/w''" "base sample_source = str ''/w/src''"
    "path sample_source = str ''/w/src/a.scss''"
    by (simp_all add: sample_source_def)
  have k: "JsonObject (filter (\<lambda>kv. fst kv \<noteq> str ''sourcesContent'')
             (filter (\<lambda>kv. fst kv \<noteq> str ''file'')
                [(str ''version'', JsonNumber (str ''3'')),
                 (str ''file'', JsonString (str ''a.css'')),
                 (str ''sources'', JsonArray [JsonString (str ''../a.scss'')]),
                 (str ''names'', JsonArray []),
                 (str ''mappings'', JsonString [])])) = sample_parsed"
    by (simp add: sample_parsed_def str_def)
  have e: "Number_toString ?env = (\<lambda>t. t)" by (simp add: sample_env_def)
  have p: "JSON_parse (parsable ?env sample_source sample_map)
     = Some (JsonObject
         [(str ''version'', JsonNumber (str ''3'')),
          (str ''file'', JsonString (str ''a.css'')),
          (str ''sources'', JsonArray [JsonString (str ''../a.scss'')]),
          (str ''names'', JsonArray []),
          (str ''mappings'', JsonString [])])"
    by (simp only: sample_parsable sample_stripped_parse)
  have "transpile_transform ?env None [] sample_source
     = [Render (render_call None [] sample_source None),
        Render (render_call None [] sample_source (Some (mapName ?env sample_source))),
        Push (File (str ''/w'') (str ''/w/src'') (str ''/w/src/a.css'') (Some (str ''a{}''))
                None None),
        Push (File (str ''/w'') (str ''/w/src'') (str ''/w/src/a.css.map'') (Some sample_emitted)
                None None),
        Done]"
    using transpile_success_outputs [OF a a p, of None "[]"]
    by (simp only: n c k e sample_stringify)
  then show ?thesis
    by (simp add: render_call_def c sample_names)
qed

text \<open>
  Claim C1 at a failing input. The compiler succeeds for \<open>/w/src/a.scss\<close> (working
  directory \<open>/w\<close>) with a source map whose only source is \<open>..././a.scss\<close>. The single pass
  of the replacement removes the \<open>../\<close> it finds inside \<open>..././\<close> and joins what is left
  to a new \<open>../\<close>, so the \<open>.css.map\<close> record that is pushed has, parsed again, the source
  \<open>../a.scss\<close>.
\<close>

theorem transpile_leaves_parent_segment:
  "transpile_transform (sample_env succeeds) None [] sample_source
     = [Render \<lparr> render_file = str ''/w/src/a.scss'', includePaths = [],
                 outputStyle = str ''compressed'', sourceMap = None \<rparr>,
        Render \<lparr> render_file = str ''/w/src/a.scss'', includePaths = [],
                 outputStyle = str ''compressed'', sourceMap = Some (str ''a.css.map'') \<rparr>,
        Push (File (str ''/w'') (str ''/w/src'') (str ''/w/src/a.css'') (Some (str ''a{}''))
                None None),
        Push (File (str ''/w'') (str ''/w/src'') (str ''/w/src/a.css.map'') (Some sample_emitted)
                None None),
        Done]
   \<and> JSON_parse sample_emitted
     = Some (JsonObject
         [(str ''version'', JsonNumber (str ''3'')),
          (str ''sources'', JsonArray [JsonString (str ''../a.scss'')]),
          (str ''names'', JsonArray []),
          (str ''mappings'', JsonString [])])"
  by (simp add: sample_success_trace sample_emitted_parse sample_parsed_def)

lemma successHandler_pushed:
  assumes "pushes (successHandler env f css smap) = [r1, r2]"
  shows "\<exists>v. well_formed v \<and> contents r2 = Some (JSON_stringify (Number_toString env) v)"
proof -
  from assms obtain parsed parsed1 parsed2
    where p: "JSON_parse (parsable env f smap) = Some parsed"
      "delete_property (str ''file'') parsed = Inr parsed1"
      "delete_property (str ''sourcesContent'') parsed1 = Inr parsed2"
    by (auto simp: successHandler_def split: option.splits sum.splits)
  then have "well_formed parsed2"
    by (blast intro: JSON_parse_well_formed delete_property_well_formed)
  moreover from assms p
  have "contents r2 = Some (JSON_stringify (Number_toString env) parsed2)"
    by (auto simp: successHandler_def pushResult_def)
  ultimately show ?thesis by blast
qed

lemma transpile_pushed_pair:
  assumes "pushes (transpile_transform env style libList f) = [r1, r2]"
  shows "\<exists>css smap. pushes (successHandler env f css smap) = [r1, r2]"
  using assms
  by (auto simp: transpile_transform_cases errorHandler_trace split: render_result.splits)

lemma sanitized_map_drops_keys:
  assumes "number_text_ok (Number_toString env)"
    and "sass_render env (render_call style libList f None) = Success css0 smap0"
    and "sass_render env (render_call style libList f (Some (mapName env f))) = Success css smap"
    and "JSON_parse (parsable env f smap) = Some (JsonObject kvs)"
  shows "\<exists>text kvs'. pushes (transpile_transform env style libList f)
            = [File (cwd f) (base f) (sourcePath env f @ sourceName env f @ str ''.css'')
                 (Some css) None None,
               File (cwd f) (base f) (sourcePath env f @ sourceName env f @ str ''.css.map'')
                 (Some text) None None]
         \<and> JSON_parse text = Some (JsonObject kvs')
         \<and> str ''file'' \<notin> fst ` set kvs' \<and> str ''sourcesContent'' \<notin> fst ` set kvs'"
proof -
  let ?num = "Number_toString env"
  let ?kvs = "filter (\<lambda>kv. fst kv \<noteq> str ''sourcesContent'')
                (filter (\<lambda>kv. fst kv \<noteq> str ''file'') kvs)"
  let ?kvs' = "map (\<lambda>kv. (fst kv, normal ?num (snd kv))) ?kvs"
  have "well_formed (JsonObject kvs)"
    using assms(4) by (rule JSON_parse_well_formed)
  then have "well_formed (JsonObject ?kvs)"
    by (simp add: enumeration_order_filter)
  with assms(1) have "JSON_parse (JSON_stringify ?num (JsonObject ?kvs)) = Some (normal ?num (JsonObject ?kvs))"
    by (rule JSON_parse_stringify)
  then have p: "JSON_parse (JSON_stringify ?num (JsonObject ?kvs)) = Some (JsonObject ?kvs')"
    by simp
  have k: "str ''file'' \<notin> fst ` set ?kvs'" "str ''sourcesContent'' \<notin> fst ` set ?kvs'"
    by auto
  have "pushes (transpile_transform env style libList f)
            = [File (cwd f) (base f) (sourcePath env f @ sourceName env f @ str ''.css'')
                 (Some css) None None,
               File (cwd f) (base f) (sourcePath env f @ sourceName env f @ str ''.css.map'')
                 (Some (JSON_stringify ?num (JsonObject ?kvs))) None None]"
    by (simp add: transpile_success_outputs [OF assms(2,3,4)])
  with p k show ?thesis by blast
qed

text \<open>
  Claim C8. Suppose the engine writes numbers so that the text it writes for a number
  literal is \<open>null\<close> or a number literal that it writes back unchanged. Then, whenever the
  transform pushes two records for a file (which it does exactly when both compiler calls
  and the handling of the source map succeed), the contents of the second record, the
  source map, parse as JSON, and the parsed value serialised again with the same
  indentation is that same text.
\<close>

theorem sanitized_map_reserializes:
  assumes "number_text_ok (Number_toString env)"
    and "pushes (transpile_transform env style libList f) = [r1, r2]"
  shows "\<exists>text v. contents r2 = Some text \<and> JSON_parse text = Some v
           \<and> JSON_stringify (Number_toString env) v = text"
proof -
  from transpile_pushed_pair [OF assms(2)] obtain css smap
    where "pushes (successHandler env f css smap) = [r1, r2]" by blast
  from successHandler_pushed [OF this] obtain v
    where v: "well_formed v" "contents r2 = Some (JSON_stringify (Number_toString env) v)"
    by blast
  let ?num = "Number_toString env"
  have "JSON_parse (JSON_stringify ?num v) = Some (normal ?num v)"
    using assms(1) v(1) by (rule JSON_parse_stringify)
  moreover have "JSON_stringify ?num (normal ?num v) = JSON_stringify ?num v"
    unfolding JSON_stringify_def using assms(1) v(1) by (rule stringify_normal)
  ultimately show ?thesis using v(2) by blast
qed

theorem sanitized_map_reserializes_witness:
  "\<exists>v. JSON_parse sample_emitted = Some v
       \<and> JSON_stringify (Number_toString (sample_env succeeds)) v = sample_emitted"
proof -
  have n: "number_text_ok (Number_toString (sample_env succeeds))"
    by (simp add: number_text_ok_def sample_env_def)
  have p: "pushes (transpile_transform (sample_env succeeds) None [] sample_source)
     = [File (str ''/w'') (str ''/w/src'') (str ''/w/src/a.css'') (Some (str ''a{}'')) None None,
        File (str ''/w'') (str ''/w/src'') (str ''/w/src/a.css.map'') (Some sample_emitted)
          None None]"
    by (simp add: sample_success_trace)
  from sanitized_map_reserializes [OF n p] show ?thesis by simp
qed

end
